theory Spec2Isabelle
  imports Main "HOL-Library.AList"
begin

section \<open>The program facade: variables, expressions, statements, functions\<close>

text \<open>
  The analyzers of \<^verbatim>\<open>slither_dataflow\<close> never build program objects themselves; they
  receive them from Slither. A variable object is compared by identity in Python, so the
  model gives every variable a handle \<open>var_id\<close> next to its name. \<open>var_class\<close> is the
  class of the object (\<^verbatim>\<open>isinstance(var, StateVariable)\<close>, \<^verbatim>\<open>isinstance(var, LocalVariable)\<close>),
  and \<open>var_declared_parameter\<close> is the answer of
  \<^verbatim>\<open>hasattr(var, 'function') and var in var.function.parameters\<close>.
\<close>

datatype var_class = StateVariable | LocalVariable | OtherVariable

record variable =
  var_id :: nat
  var_name :: string
  var_class :: var_class
  var_declared_parameter :: bool

text \<open>
  Expression objects, as far as the helpers look into them: the variants of Slither's
  expression classes with the sub-expressions their public attributes hold. An
  \<open>Identifier\<close> holds a variable; \<open>FunctionIdentifier\<close> is an identifier whose value is
  not a \<^verbatim>\<open>Variable\<close> (a function or a contract). Assignments, binary and unary
  operations carry the text of their operator (\<open>=\<close>, \<open>+=\<close>, \<open>+\<close>, \<open>!\<close>), a unary
  operation also whether the operator stands in front, a type conversion the text of
  the type. Only \<open>CallExpression\<close> has the attribute \<^verbatim>\<open>arguments\<close>.
\<close>

datatype expression =
    Identifier variable
  | FunctionIdentifier string
  | Literal string
  | AssignmentOperation string expression expression
  | BinaryOperation string expression expression
  | UnaryOperation string bool expression
  | CallExpression expression "expression list"
  | IndexAccess expression expression
  | MemberAccess expression string
  | TypeConversion string expression
  | TupleExpression "expression list"
  | ConditionalExpression expression expression expression

text \<open>\<^verbatim>\<open>hasattr(expression, 'arguments')\<close> and the attribute itself.\<close>

fun arguments :: "expression \<Rightarrow> expression list option" where
  "arguments (CallExpression called args) = Some args"
| "arguments _ = None"

fun join_with :: "string \<Rightarrow> string list \<Rightarrow> string" where
  "join_with sep [] = []"
| "join_with sep [x] = x"
| "join_with sep (x # y # ys) = x @ sep @ join_with sep (y # ys)"

text \<open>\<^verbatim>\<open>str(expression)\<close>, the text Slither prints for an expression.\<close>

fun str_expression :: "expression \<Rightarrow> string" where
  "str_expression (Identifier v) = var_name v"
| "str_expression (FunctionIdentifier n) = n"
| "str_expression (Literal s) = s"
| "str_expression (AssignmentOperation opr l r) =
     str_expression l @ '' '' @ opr @ '' '' @ str_expression r"
| "str_expression (BinaryOperation opr l r) =
     str_expression l @ '' '' @ opr @ '' '' @ str_expression r"
| "str_expression (CallExpression called args) =
     str_expression called @ ''('' @ join_with '','' (map str_expression args) @ '')''"
| "str_expression (IndexAccess l r) = str_expression l @ ''['' @ str_expression r @ '']''"
| "str_expression (MemberAccess e m) = str_expression e @ ''.'' @ m"
| "str_expression (UnaryOperation opr is_prefix e) =
     (if is_prefix then opr @ '' '' @ str_expression e else str_expression e @ '' '' @ opr)"
| "str_expression (TypeConversion t e) = t @ ''('' @ str_expression e @ '')''"
| "str_expression (TupleExpression es) =
     ''('' @ join_with '','' (map str_expression es) @ '')''"
| "str_expression (ConditionalExpression c t e) =
     ''if '' @ str_expression c @ '' then '' @ str_expression t @ '' else '' @ str_expression e"

text \<open>
  \<^verbatim>\<open>get_expression_variables\<close> (utils/helpers.py) walks every public attribute of the
  expression object: a variable is added, an expression is walked recursively, a list is
  walked item by item. The result is a Python set; the model keeps it as a list without
  repetitions, in order of first occurrence (Python fixes no iteration order for a set).
\<close>

fun get_expression_variables :: "expression \<Rightarrow> variable list" where
  "get_expression_variables (Identifier v) = [v]"
| "get_expression_variables (FunctionIdentifier n) = []"
| "get_expression_variables (Literal s) = []"
| "get_expression_variables (AssignmentOperation opr l r) =
     remdups (get_expression_variables l @ get_expression_variables r)"
| "get_expression_variables (BinaryOperation opr l r) =
     remdups (get_expression_variables l @ get_expression_variables r)"
| "get_expression_variables (CallExpression called args) =
     remdups (get_expression_variables called @ concat (map get_expression_variables args))"
| "get_expression_variables (IndexAccess l r) =
     remdups (get_expression_variables l @ get_expression_variables r)"
| "get_expression_variables (MemberAccess e m) = get_expression_variables e"
| "get_expression_variables (UnaryOperation opr is_prefix e) = get_expression_variables e"
| "get_expression_variables (TypeConversion t e) = get_expression_variables e"
| "get_expression_variables (TupleExpression es) =
     remdups (concat (map get_expression_variables es))"
| "get_expression_variables (ConditionalExpression c t e) =
     remdups (get_expression_variables c @ get_expression_variables t
                @ get_expression_variables e)"

text \<open>
  An entry of \<^verbatim>\<open>node.internal_calls\<close> is a \<^verbatim>\<open>Function\<close> object (referred to by its
  handle, since call graphs may be cyclic) or a Solidity built-in.
\<close>

datatype internal_call = FunctionCall nat | SolidityCall string

record node =
  expression :: "expression option"
  local_variables_written :: "variable list"
  state_variables_written :: "variable list"
  local_variables_read :: "variable list"
  state_variables_read :: "variable list"
  internal_calls :: "internal_call list"
  source_lines :: "nat list"

record func =
  func_id :: nat
  func_name :: string
  parameters :: "variable list"
  nodes :: "node list"

record contract =
  contract_name :: string
  contract_functions :: "func list"

section \<open>Name resolution (utils/helpers.py)\<close>

text \<open>
  \<^verbatim>\<open>find_variable_by_name\<close>: parameters first (the queried name or the name with an
  underscore in front), then local variables written or read by a statement, then state
  variables read or written.
\<close>

definition find_variable_by_name :: "func \<Rightarrow> string \<Rightarrow> variable option" where
  "find_variable_by_name function var_name' =
     (case find (\<lambda>param. var_name param = var_name' \<or> var_name param = ''_'' @ var_name')
             (parameters function) of
        Some param \<Rightarrow> Some param
      | None \<Rightarrow>
         (case find (\<lambda>local_var. var_name local_var = var_name')
                 (concat (map (\<lambda>n. local_variables_written n @ local_variables_read n)
                           (nodes function))) of
            Some local_var \<Rightarrow> Some local_var
          | None \<Rightarrow>
              find (\<lambda>state_var. var_name state_var = var_name')
                (concat (map (\<lambda>n. state_variables_read n @ state_variables_written n)
                          (nodes function)))))"

definition find_function_by_name :: "contract \<Rightarrow> string \<Rightarrow> func option" where
  "find_function_by_name c function_name =
     find (\<lambda>function. func_name function = function_name) (contract_functions c)"

section \<open>Node keys (analyzers/taint.py)\<close>

text \<open>
  \<^verbatim>\<open>_node_key\<close>: the name of the variable, the character \<open>@\<close>, and the name of the
  function, or \<open>global\<close> when no function is given.
\<close>

definition node_key :: "variable \<Rightarrow> func option \<Rightarrow> string" where
  "node_key var function =
     (let func_name' = (case function of Some f \<Rightarrow> func_name f | None \<Rightarrow> ''global'')
      in var_name var @ ''@'' @ func_name')"

text \<open>\<^verbatim>\<open>_get_var_type\<close>.\<close>

definition get_var_type :: "variable \<Rightarrow> string" where
  "get_var_type var =
     (if var_class var = StateVariable then ''state''
      else if var_class var = LocalVariable then
        (if var_declared_parameter var then ''parameter'' else ''local'')
      else ''unknown'')"

section \<open>The directed graph (networkx.DiGraph)\<close>

text \<open>
  The taint graph is a \<^verbatim>\<open>networkx.DiGraph\<close>: a dictionary from node keys to attribute
  dictionaries and a dictionary from ordered pairs of node keys to edge attribute
  dictionaries, both in insertion order. \<^verbatim>\<open>add_node\<close> on a key already present
  updates its attributes; \<^verbatim>\<open>add_edge\<close> creates missing end points without
  attributes and, on a pair already present, updates the attributes of the one edge
  the pair has. The analyzer always passes the same attribute names, so an update
  replaces the attributes.
\<close>

record node_attrs =
  attr_var :: variable
  attr_function :: func
  attr_var_type :: string

record edge_attrs =
  edge_expression :: string
  edge_line :: "nat option"

record digraph =
  graph_nodes :: "(string \<times> node_attrs option) list"
  graph_edges :: "((string \<times> string) \<times> edge_attrs) list"

definition empty_graph :: digraph where
  "empty_graph = \<lparr>graph_nodes = [], graph_edges = []\<rparr>"

definition has_node :: "digraph \<Rightarrow> string \<Rightarrow> bool" where
  "has_node G k = (k \<in> set (map fst (graph_nodes G)))"

definition add_node :: "digraph \<Rightarrow> string \<Rightarrow> node_attrs \<Rightarrow> digraph" where
  "add_node G k a = G\<lparr>graph_nodes := AList.update k (Some a) (graph_nodes G)\<rparr>"

definition ensure_node :: "digraph \<Rightarrow> string \<Rightarrow> digraph" where
  "ensure_node G k = (if has_node G k then G else G\<lparr>graph_nodes := graph_nodes G @ [(k, None)]\<rparr>)"

definition add_edge :: "digraph \<Rightarrow> string \<Rightarrow> string \<Rightarrow> edge_attrs \<Rightarrow> digraph" where
  "add_edge G u v a =
     (let G = ensure_node G u;
          G = ensure_node G v
      in G\<lparr>graph_edges := AList.update (u, v) a (graph_edges G)\<rparr>)"

text \<open>The successors of a node, in the order in which their edges were first added.\<close>

definition successors :: "digraph \<Rightarrow> string \<Rightarrow> string list" where
  "successors G u = map (snd \<circ> fst) (filter (\<lambda>e. fst (fst e) = u) (graph_edges G))"

section \<open>Building the taint graph (analyzers/taint.py)\<close>

text \<open>
  \<^verbatim>\<open>node.source_mapping.lines[0] if node.source_mapping.lines else None\<close>.
\<close>

definition first_line :: "node \<Rightarrow> nat option" where
  "first_line n = (case source_lines n of [] \<Rightarrow> None | l # _ \<Rightarrow> Some l)"

text \<open>
  The three propagation routines share one block of statements, written out four times
  in the source: \<^verbatim>\<open>G.add_node(key of (var, function), ...)\<close>, then
  \<^verbatim>\<open>G.add_edge(from_key, to_key, expression=..., line=...)\<close>, then
  \<^verbatim>\<open>if (var, function) not in processed: to_process.append((var, function))\<close>.
  The state threaded through the loops is the graph and the worklist.
\<close>

type_synonym worklist = "(variable \<times> func) list"

definition add_tainted ::
  "digraph \<times> worklist \<Rightarrow> worklist \<Rightarrow> variable \<Rightarrow> func \<Rightarrow> string \<Rightarrow> string \<Rightarrow> string
     \<Rightarrow> nat option \<Rightarrow> digraph \<times> worklist" where
  "add_tainted st processed var function from_key to_key expr line =
     (let G = add_node (fst st) (node_key var (Some function))
                \<lparr>attr_var = var, attr_function = function, attr_var_type = get_var_type var\<rparr>;
          G = add_edge G from_key to_key \<lparr>edge_expression = expr, edge_line = line\<rparr>;
          to_process = (if (var, function) \<notin> set processed
                        then snd st @ [(var, function)] else snd st)
      in (G, to_process))"

text \<open>
  \<^verbatim>\<open>_process_function_taint\<close>, first half of the loop body (the co-occurrence rule):
  the statement has an expression, the current variable is among the variables of the
  expression, and the written variable is not.
\<close>

definition heuristic_taint ::
  "digraph \<times> worklist \<Rightarrow> func \<Rightarrow> variable \<Rightarrow> string \<Rightarrow> worklist \<Rightarrow> node \<Rightarrow> digraph \<times> worklist" where
  "heuristic_taint st function var current_key processed n =
     (case expression n of
        None \<Rightarrow> st
      | Some e \<Rightarrow>
          (let expr_vars = get_expression_variables e in
           if var \<in> set expr_vars then
             fold (\<lambda>written_var st.
                     if written_var \<notin> set expr_vars
                     then add_tainted st processed written_var function current_key
                            (node_key written_var (Some function)) (str_expression e) (first_line n)
                     else st)
               (local_variables_written n @ state_variables_written n) st
           else st))"

text \<open>
  Second half of the loop body (the data-dependency rule). \<open>is_dependent\<close> is Slither's
  data-dependency query \<^verbatim>\<open>is_dependent(written_var, var, func)\<close>, a parameter of the model.
\<close>

definition dependency_taint ::
  "(variable \<Rightarrow> variable \<Rightarrow> func \<Rightarrow> bool) \<Rightarrow> digraph \<times> worklist \<Rightarrow> func \<Rightarrow> variable \<Rightarrow> string
     \<Rightarrow> worklist \<Rightarrow> node \<Rightarrow> digraph \<times> worklist" where
  "dependency_taint is_dependent st function var current_key processed n =
     fold (\<lambda>written_var st.
             if is_dependent written_var var function
             then add_tainted st processed written_var function current_key
                    (node_key written_var (Some function))
                    (case expression n of Some e \<Rightarrow> str_expression e | None \<Rightarrow> ''unknown expression'')
                    (first_line n)
             else st)
       (local_variables_written n @ state_variables_written n) st"

definition process_function_taint ::
  "(variable \<Rightarrow> variable \<Rightarrow> func \<Rightarrow> bool) \<Rightarrow> digraph \<times> worklist \<Rightarrow> func \<Rightarrow> variable \<Rightarrow> string
     \<Rightarrow> worklist \<Rightarrow> digraph \<times> worklist" where
  "process_function_taint is_dependent st function var current_key processed =
     fold (\<lambda>n st. dependency_taint is_dependent
                     (heuristic_taint st function var current_key processed n)
                     function var current_key processed n)
       (nodes function) st"

text \<open>\<^verbatim>\<open>_process_state_var_taint\<close>.\<close>

definition process_state_var_taint ::
  "digraph \<times> worklist \<Rightarrow> contract \<Rightarrow> func \<Rightarrow> variable \<Rightarrow> string \<Rightarrow> worklist
     \<Rightarrow> digraph \<times> worklist" where
  "process_state_var_taint st c function var current_key processed =
     fold (\<lambda>other_func st.
             if other_func \<noteq> function then
               fold (\<lambda>n st.
                       if var \<in> set (state_variables_read n)
                       then add_tainted st processed var other_func current_key
                              (node_key var (Some other_func))
                              (''State variable read in '' @ func_name other_func) None
                       else st)
                 (nodes other_func) st
             else st)
       (contract_functions c) st"

text \<open>
  \<^verbatim>\<open>list.index\<close>: the first position of an element. The only caller asks for the
  position of a variable it has just found in the list.
\<close>

fun index_of :: "'a \<Rightarrow> 'a list \<Rightarrow> nat option" where
  "index_of x [] = None"
| "index_of x (y # ys) = (if x = y then Some 0 else map_option Suc (index_of x ys))"

text \<open>
  \<^verbatim>\<open>_process_parameter_taint\<close>. The argument list is taken from the expression of the
  statement that holds the call.
\<close>

definition process_parameter_taint ::
  "digraph \<times> worklist \<Rightarrow> contract \<Rightarrow> func \<Rightarrow> variable \<Rightarrow> string \<Rightarrow> worklist
     \<Rightarrow> digraph \<times> worklist" where
  "process_parameter_taint st c function var current_key processed =
     (case index_of var (parameters function) of
        None \<Rightarrow> st
      | Some param_idx \<Rightarrow>
          fold (\<lambda>other_func st.
            fold (\<lambda>n st.
              fold (\<lambda>internal_call st.
                      if internal_call = FunctionCall (func_id function) then
                        (case expression n of
                           None \<Rightarrow> st
                         | Some e \<Rightarrow>
                            (case arguments e of
                               None \<Rightarrow> st
                             | Some args \<Rightarrow>
                                 if param_idx < length args then
                                   fold (\<lambda>arg_var st.
                                           add_tainted st processed arg_var other_func
                                             (node_key arg_var (Some other_func)) current_key
                                             (''Parameter '' @ var_name var @ '' in call to ''
                                                @ func_name function)
                                             (first_line n))
                                     (get_expression_variables (args ! param_idx)) st
                                 else st))
                      else st)
                (internal_calls n) st)
              (nodes other_func) st)
            (contract_functions c) st)"

text \<open>
  The body of the worklist loop of \<^verbatim>\<open>_build_taint_graph\<close> for a pair that has not been
  processed; \<open>processed\<close> already contains the pair.
\<close>

definition process_pair ::
  "(variable \<Rightarrow> variable \<Rightarrow> func \<Rightarrow> bool) \<Rightarrow> contract \<Rightarrow> digraph \<times> worklist \<Rightarrow> variable \<Rightarrow> func
     \<Rightarrow> worklist \<Rightarrow> digraph \<times> worklist" where
  "process_pair is_dependent c st var function processed =
     (let current_key = node_key var (Some function);
          st = process_function_taint is_dependent st function var current_key processed;
          st = (if var_class var = StateVariable
                then process_state_var_taint st c function var current_key processed else st);
          st = (if var \<in> set (parameters function)
                then process_parameter_taint st c function var current_key processed else st)
      in st)"

subsection \<open>The worklist loop\<close>

text \<open>
  The loop of \<^verbatim>\<open>_build_taint_graph\<close> stops because every pair it appends to the
  worklist comes from a finite set fixed by the contract and the worklist: the variables
  written by statements or mentioned in call arguments, paired with the functions of
  the contract and of the worklist. Each iteration either drops an entry of the
  worklist or moves one pair of that set into \<open>processed\<close>.
\<close>

definition node_vars :: "node \<Rightarrow> variable set" where
  "node_vars n =
     set (local_variables_written n) \<union> set (state_variables_written n) \<union>
     (case expression n of
        None \<Rightarrow> {}
      | Some e \<Rightarrow> (case arguments e of
                    None \<Rightarrow> {}
                  | Some args \<Rightarrow> (\<Union>a\<in>set args. set (get_expression_variables a))))"

definition func_vars :: "func \<Rightarrow> variable set" where
  "func_vars f = (\<Union>n\<in>set (nodes f). node_vars n)"

definition reach_funcs :: "contract \<Rightarrow> worklist \<Rightarrow> func set" where
  "reach_funcs c to_process = set (contract_functions c) \<union> snd ` set to_process"

definition pair_universe :: "contract \<Rightarrow> worklist \<Rightarrow> (variable \<times> func) set" where
  "pair_universe c to_process =
     (fst ` set to_process \<union> (\<Union>f\<in>reach_funcs c to_process. func_vars f))
       \<times> reach_funcs c to_process"

lemma finite_pair_universe: "finite (pair_universe c tp)"
  by (auto simp: pair_universe_def reach_funcs_def func_vars_def node_vars_def
      split: option.splits)

lemma snd_add_tainted:
  "snd (add_tainted st pr v f a b e l) = (if (v, f) \<notin> set pr then snd st @ [(v, f)] else snd st)"
  by (simp add: add_tainted_def Let_def)

lemma fold_worklist_subset:
  assumes "\<And>x st. x \<in> set xs \<Longrightarrow> set (snd (g x st)) \<subseteq> set (snd st) \<union> A"
  shows "set (snd (fold g xs st)) \<subseteq> set (snd st) \<union> A"
  using assms
proof (induction xs arbitrary: st)
  case Nil
  then show ?case by simp
next
  case (Cons x xs)
  have "set (snd (fold g xs (g x st))) \<subseteq> set (snd (g x st)) \<union> A"
    using Cons.IH[of "g x st"] Cons.prems by simp
  moreover have "set (snd (g x st)) \<subseteq> set (snd st) \<union> A"
    using Cons.prems by simp
  ultimately show ?case by auto
qed

lemma add_tainted_worklist:
  "set (snd (add_tainted st pr v f a b e l)) \<subseteq> set (snd st) \<union> {(v, f)}"
  by (auto simp: snd_add_tainted)

lemma fold_written_worklist:
  assumes "set ws \<subseteq> node_vars n"
  shows "set (snd (fold (\<lambda>w st. if P w then add_tainted st pr w f (ka w) (kb w) e l else st) ws st))
           \<subseteq> set (snd st) \<union> node_vars n \<times> {f}"
proof (rule fold_worklist_subset)
  fix w st'
  assume "w \<in> set ws"
  then have "w \<in> node_vars n" using assms by blast
  then show "set (snd (if P w then add_tainted st' pr w f (ka w) (kb w) e l else st'))
               \<subseteq> set (snd st') \<union> node_vars n \<times> {f}"
    using add_tainted_worklist[of st' pr w f "ka w" "kb w" e l] by auto
qed

lemma written_node_vars:
  "set (local_variables_written n @ state_variables_written n) \<subseteq> node_vars n"
  by (simp add: node_vars_def le_supI1)

lemma heuristic_taint_worklist:
  "set (snd (heuristic_taint st f v k pr n)) \<subseteq> set (snd st) \<union> node_vars n \<times> {f}"
proof (cases "expression n")
  case None
  then show ?thesis by (simp add: heuristic_taint_def)
next
  case (Some e)
  show ?thesis
  proof (cases "v \<in> set (get_expression_variables e)")
    case False
    with Some show ?thesis by (simp add: heuristic_taint_def)
  next
    case True
    have "heuristic_taint st f v k pr n =
        fold (\<lambda>w st. if w \<notin> set (get_expression_variables e)
                       then add_tainted st pr w f k (node_key w (Some f)) (str_expression e) (first_line n)
                       else st)
          (local_variables_written n @ state_variables_written n) st"
      using Some True by (simp add: heuristic_taint_def del: fold_append)
    then show ?thesis
      using fold_written_worklist[where n=n and P="\<lambda>w. w \<notin> set (get_expression_variables e)"
          and ka="\<lambda>w. k" and kb="\<lambda>w. node_key w (Some f)", OF written_node_vars]
      by simp
  qed
qed

lemma dependency_taint_worklist:
  "set (snd (dependency_taint dep st f v k pr n)) \<subseteq> set (snd st) \<union> node_vars n \<times> {f}"
  unfolding dependency_taint_def
  by (rule fold_written_worklist[where ka="\<lambda>w. k" and kb="\<lambda>w. node_key w (Some f)",
        OF written_node_vars])

lemma process_function_taint_worklist:
  "set (snd (process_function_taint dep st f v k pr)) \<subseteq> set (snd st) \<union> func_vars f \<times> {f}"
  unfolding process_function_taint_def
proof (rule fold_worklist_subset)
  fix n st'
  assume n: "n \<in> set (nodes f)"
  have "node_vars n \<subseteq> func_vars f" using n by (auto simp: func_vars_def)
  then show "set (snd (dependency_taint dep (heuristic_taint st' f v k pr n) f v k pr n))
          \<subseteq> set (snd st') \<union> func_vars f \<times> {f}"
    using dependency_taint_worklist[of dep "heuristic_taint st' f v k pr n" f v k pr n]
      heuristic_taint_worklist[of st' f v k pr n]
    by blast
qed

lemma process_state_var_taint_worklist:
  "set (snd (process_state_var_taint st c f v k pr))
     \<subseteq> set (snd st) \<union> {v} \<times> set (contract_functions c)"
  unfolding process_state_var_taint_def
proof (rule fold_worklist_subset)
  fix g st'
  assume g: "g \<in> set (contract_functions c)"
  have "set (snd (fold (\<lambda>n st. if v \<in> set (state_variables_read n)
                       then add_tainted st pr v g k (node_key v (Some g))
                              (''State variable read in '' @ func_name g) None
                       else st) (nodes g) st')) \<subseteq> set (snd st') \<union> {(v, g)}"
  proof (rule fold_worklist_subset)
    fix n st''
    show "set (snd (if v \<in> set (state_variables_read n)
                       then add_tainted st'' pr v g k (node_key v (Some g))
                              (''State variable read in '' @ func_name g) None
                       else st'')) \<subseteq> set (snd st'') \<union> {(v, g)}"
      using add_tainted_worklist[of st'' pr v g k "node_key v (Some g)"
          "''State variable read in '' @ func_name g" None] by auto
  qed
  then show "set (snd (if g \<noteq> f then
               fold (\<lambda>n st. if v \<in> set (state_variables_read n)
                       then add_tainted st pr v g k (node_key v (Some g))
                              (''State variable read in '' @ func_name g) None
                       else st) (nodes g) st'
             else st')) \<subseteq> set (snd st') \<union> {v} \<times> set (contract_functions c)"
    using g by auto
qed

lemma argument_node_vars:
  assumes "expression n = Some e" "arguments e = Some args" "i < length args"
  shows "set (get_expression_variables (args ! i)) \<subseteq> node_vars n"
  using assms nth_mem[of i args] by (fastforce simp: node_vars_def)

lemma call_taint_worklist:
  "set (snd (case expression n of
               None \<Rightarrow> st
             | Some e \<Rightarrow>
                (case arguments e of
                   None \<Rightarrow> st
                 | Some args \<Rightarrow>
                     if i < length args then
                       fold (\<lambda>arg_var st. add_tainted st pr arg_var g (kf arg_var) k x l)
                         (get_expression_variables (args ! i)) st
                     else st)))
     \<subseteq> set (snd st) \<union> node_vars n \<times> {g}"
proof (cases "expression n")
  case None
  then show ?thesis by simp
next
  case (Some e)
  show ?thesis
  proof (cases "arguments e")
    case None
    with Some show ?thesis by simp
  next
    case (Some args)
    show ?thesis
    proof (cases "i < length args")
      case False
      with Some \<open>expression n = Some e\<close> show ?thesis by simp
    next
      case True
      have "set (snd (fold (\<lambda>w st. if True then add_tainted st pr w g (kf w) k x l else st)
                    (get_expression_variables (args ! i)) st))
              \<subseteq> set (snd st) \<union> node_vars n \<times> {g}"
        by (rule fold_written_worklist[where P="\<lambda>w. True" and ka=kf and kb="\<lambda>w. k",
              OF argument_node_vars[OF \<open>expression n = Some e\<close> Some True]])
      then show ?thesis using True Some \<open>expression n = Some e\<close> by simp
    qed
  qed
qed

lemma process_parameter_taint_worklist:
  "set (snd (process_parameter_taint st c f v k pr))
     \<subseteq> set (snd st) \<union> (\<Union>g\<in>set (contract_functions c). func_vars g) \<times> set (contract_functions c)"
proof (cases "index_of v (parameters f)")
  case None
  then show ?thesis by (simp add: process_parameter_taint_def)
next
  case (Some i)
  show ?thesis
    unfolding process_parameter_taint_def Some option.case
  proof (rule fold_worklist_subset, goal_cases)
    case (1 g st1)
    have "set (snd (fold (\<lambda>n st.
              fold (\<lambda>internal_call st.
                      if internal_call = FunctionCall (func_id f) then
                        (case expression n of
                           None \<Rightarrow> st
                         | Some e \<Rightarrow>
                            (case arguments e of
                               None \<Rightarrow> st
                             | Some args \<Rightarrow>
                                 if i < length args then
                                   fold (\<lambda>arg_var st.
                                           add_tainted st pr arg_var g
                                             (node_key arg_var (Some g)) k
                                             (''Parameter '' @ var_name v @ '' in call to ''
                                                @ func_name f)
                                             (first_line n))
                                     (get_expression_variables (args ! i)) st
                                 else st))
                      else st)
                (internal_calls n) st) (nodes g) st1)) \<subseteq> set (snd st1) \<union> func_vars g \<times> {g}"
    proof (rule fold_worklist_subset, goal_cases)
      case (1 n st2)
      then have nv: "node_vars n \<subseteq> func_vars g" by (auto simp: func_vars_def)
      have "set (snd (fold (\<lambda>internal_call st.
                      if internal_call = FunctionCall (func_id f) then
                        (case expression n of
                           None \<Rightarrow> st
                         | Some e \<Rightarrow>
                            (case arguments e of
                               None \<Rightarrow> st
                             | Some args \<Rightarrow>
                                 if i < length args then
                                   fold (\<lambda>arg_var st.
                                           add_tainted st pr arg_var g
                                             (node_key arg_var (Some g)) k
                                             (''Parameter '' @ var_name v @ '' in call to ''
                                                @ func_name f)
                                             (first_line n))
                                     (get_expression_variables (args ! i)) st
                                 else st))
                      else st)
                (internal_calls n) st2)) \<subseteq> set (snd st2) \<union> node_vars n \<times> {g}"
      proof (rule fold_worklist_subset, goal_cases)
        case (1 ic st3)
        show ?case
          using call_taint_worklist[where n=n and st=st3 and i=i and pr=pr and g=g
              and kf="\<lambda>a. node_key a (Some g)" and k=k
              and x="''Parameter '' @ var_name v @ '' in call to '' @ func_name f"
              and l="first_line n"]
          by (cases "ic = FunctionCall (func_id f)") simp_all
      qed
      with nv show ?case by blast
    qed
    with 1 show ?case by blast
  qed
qed

lemma process_pair_worklist:
  "set (snd (process_pair dep c st v f pr))
     \<subseteq> set (snd st) \<union> ({v} \<union> func_vars f \<union> (\<Union>g\<in>set (contract_functions c). func_vars g))
                         \<times> (insert f (set (contract_functions c)))"
proof -
  let ?k = "node_key v (Some f)"
  let ?s1 = "process_function_taint dep st f v ?k pr"
  let ?s2 = "if var_class v = StateVariable then process_state_var_taint ?s1 c f v ?k pr else ?s1"
  let ?s3 = "if v \<in> set (parameters f) then process_parameter_taint ?s2 c f v ?k pr else ?s2"
  have 1: "set (snd ?s1) \<subseteq> set (snd st) \<union> func_vars f \<times> {f}"
    by (rule process_function_taint_worklist)
  have 2: "set (snd ?s2) \<subseteq> set (snd ?s1) \<union> {v} \<times> set (contract_functions c)"
    using process_state_var_taint_worklist[of ?s1 c f v ?k pr] by auto
  have 3: "set (snd ?s3) \<subseteq> set (snd ?s2)
      \<union> (\<Union>g\<in>set (contract_functions c). func_vars g) \<times> set (contract_functions c)"
    using process_parameter_taint_worklist[of ?s2 c f v ?k pr] by auto
  have "process_pair dep c st v f pr = ?s3"
    by (simp add: process_pair_def Let_def)
  with 1 2 3 show ?thesis by (simp only:) blast
qed

lemma pair_universe_step:
  "pair_universe c (snd (process_pair dep c (G, tp) v f pr)) \<subseteq> pair_universe c ((v, f) # tp)"
proof -
  define tp' where "tp' = snd (process_pair dep c (G, tp) v f pr)"
  define A where "A = {v} \<union> func_vars f \<union> (\<Union>g\<in>set (contract_functions c). func_vars g)"
  define B where "B = insert f (set (contract_functions c))"
  have sub: "set tp' \<subseteq> set tp \<union> A \<times> B"
    using process_pair_worklist[of dep c "(G, tp)" v f pr] by (simp add: tp'_def A_def B_def)
  have "snd ` set tp' \<subseteq> snd ` (set tp \<union> A \<times> B)"
    by (rule image_mono[OF sub])
  also have "\<dots> \<subseteq> snd ` set tp \<union> B"
    by (auto simp: image_Un)
  finally have F0: "snd ` set tp' \<subseteq> snd ` set tp \<union> B" .
  have "fst ` set tp' \<subseteq> fst ` (set tp \<union> A \<times> B)"
    by (rule image_mono[OF sub])
  also have "\<dots> \<subseteq> fst ` set tp \<union> A"
    by (auto simp: image_Un)
  finally have V0: "fst ` set tp' \<subseteq> fst ` set tp \<union> A" .
  have B: "B \<subseteq> reach_funcs c ((v, f) # tp)"
    by (auto simp: B_def reach_funcs_def)
  have F: "reach_funcs c tp' \<subseteq> reach_funcs c ((v, f) # tp)"
    using F0 B by (auto simp: reach_funcs_def)
  have f_in: "f \<in> reach_funcs c ((v, f) # tp)"
    by (simp add: reach_funcs_def)
  have c_in: "set (contract_functions c) \<subseteq> reach_funcs c ((v, f) # tp)"
    by (auto simp: reach_funcs_def)
  have A: "A \<subseteq> fst ` set ((v, f) # tp) \<union> (\<Union>g\<in>reach_funcs c ((v, f) # tp). func_vars g)"
    unfolding A_def using f_in c_in by auto
  have V: "fst ` set tp' \<subseteq> fst ` set ((v, f) # tp) \<union> (\<Union>g\<in>reach_funcs c ((v, f) # tp). func_vars g)"
    using V0 A by auto
  have U: "(\<Union>g\<in>reach_funcs c tp'. func_vars g) \<subseteq> (\<Union>g\<in>reach_funcs c ((v, f) # tp). func_vars g)"
    using F by blast
  have "pair_universe c tp' \<subseteq> pair_universe c ((v, f) # tp)"
    unfolding pair_universe_def
    by (rule Sigma_mono) (use V U F in blast)+
  then show ?thesis by (simp add: tp'_def)
qed

lemma pair_universe_tail: "pair_universe c tp \<subseteq> pair_universe c (p # tp)"
  unfolding pair_universe_def reach_funcs_def by auto

lemma pair_universe_head: "(v, f) \<in> pair_universe c ((v, f) # tp)"
  unfolding pair_universe_def reach_funcs_def by auto

text \<open>
  The \<^verbatim>\<open>while to_process:\<close> loop: \<^verbatim>\<open>to_process.pop(0)\<close>, the test against
  \<open>processed\<close>, \<^verbatim>\<open>processed.add\<close>, and the three propagation routines. \<open>processed\<close> is a
  Python set; the model keeps its elements in the order in which they were added and
  returns it next to the graph.
\<close>

function taint_loop ::
  "(variable \<Rightarrow> variable \<Rightarrow> func \<Rightarrow> bool) \<Rightarrow> contract \<Rightarrow> digraph \<Rightarrow> worklist \<Rightarrow> worklist
     \<Rightarrow> digraph \<times> worklist" where
  "taint_loop is_dependent c G [] processed = (G, processed)"
| "taint_loop is_dependent c G ((var, function) # to_process) processed =
     (if (var, function) \<in> set processed
      then taint_loop is_dependent c G to_process processed
      else (let processed' = processed @ [(var, function)];
                st = process_pair is_dependent c (G, to_process) var function processed'
            in taint_loop is_dependent c (fst st) (snd st) processed'))"
  by pat_completeness auto
termination
proof (relation "measures [\<lambda>(d, c, G, tp, pr). card (pair_universe c tp - set pr),
                          \<lambda>(d, c, G, tp, pr). length tp]", goal_cases)
  case 1
  then show ?case by simp
next
  case (2 d c G v f tp pr)
  have "card (pair_universe c tp - set pr) \<le> card (pair_universe c ((v, f) # tp) - set pr)"
    by (intro card_mono finite_Diff finite_pair_universe Diff_mono pair_universe_tail subset_refl)
  then show ?case by auto
next
  case (3 d c G v f tp pr pr' st)
  have "pair_universe c (snd st) - set pr' \<subset> pair_universe c ((v, f) # tp) - set pr"
    using 3 pair_universe_step[of c d G tp v f pr'] pair_universe_head[of v f c tp]
    by auto
  then have "card (pair_universe c (snd st) - set pr') < card (pair_universe c ((v, f) # tp) - set pr)"
    by (intro psubset_card_mono finite_Diff finite_pair_universe)
  then show ?case by simp
qed


text \<open>\<^verbatim>\<open>_build_taint_graph\<close>: the source node first, then the loop.\<close>

definition build_taint_state ::
  "(variable \<Rightarrow> variable \<Rightarrow> func \<Rightarrow> bool) \<Rightarrow> contract \<Rightarrow> func \<Rightarrow> variable \<Rightarrow> digraph \<times> worklist" where
  "build_taint_state is_dependent c source_func source_var =
     (let G = add_node empty_graph (node_key source_var (Some source_func))
                \<lparr>attr_var = source_var, attr_function = source_func,
                 attr_var_type = get_var_type source_var\<rparr>
      in taint_loop is_dependent c G [(source_var, source_func)] [])"

definition build_taint_graph ::
  "(variable \<Rightarrow> variable \<Rightarrow> func \<Rightarrow> bool) \<Rightarrow> contract \<Rightarrow> func \<Rightarrow> variable \<Rightarrow> digraph" where
  "build_taint_graph is_dependent c source_func source_var =
     fst (build_taint_state is_dependent c source_func source_var)"

section \<open>Example programs\<close>

definition mk_var :: "nat \<Rightarrow> string \<Rightarrow> var_class \<Rightarrow> bool \<Rightarrow> variable" where
  "mk_var i n c p = \<lparr>var_id = i, var_name = n, var_class = c, var_declared_parameter = p\<rparr>"

definition mk_node ::
  "expression option \<Rightarrow> variable list \<Rightarrow> variable list \<Rightarrow> variable list \<Rightarrow> variable list
     \<Rightarrow> internal_call list \<Rightarrow> nat list \<Rightarrow> node" where
  "mk_node e lw sw lr sr ic ls =
     \<lparr>expression = e, local_variables_written = lw, state_variables_written = sw,
      local_variables_read = lr, state_variables_read = sr, internal_calls = ic,
      source_lines = ls\<rparr>"

definition mk_func :: "nat \<Rightarrow> string \<Rightarrow> variable list \<Rightarrow> node list \<Rightarrow> func" where
  "mk_func i n ps ns = \<lparr>func_id = i, func_name = n, parameters = ps, nodes = ns\<rparr>"

text \<open>
  \<^verbatim>\<open>function withdraw(uint _amount) { amount = _amount; }\<close> with a state variable
  \<open>amount\<close>: the parameter carries the underscore, the state variable the plain name.
\<close>

definition ex_param_amount :: variable where
  "ex_param_amount = mk_var 1 ''_amount'' LocalVariable True"

definition ex_state_amount :: variable where
  "ex_state_amount = mk_var 2 ''amount'' StateVariable False"

definition ex_withdraw :: func where
  "ex_withdraw = mk_func 1 ''withdraw'' [ex_param_amount]
     [mk_node (Some (AssignmentOperation ''='' (Identifier ex_state_amount) (Identifier ex_param_amount)))
        [] [ex_state_amount] [ex_param_amount] [] [] [3]]"

text \<open>A parameter \<open>a\<close>, used by the examples of graph construction below.\<close>

definition ex_var_a :: variable where
  "ex_var_a = mk_var 1 ''a'' LocalVariable True"

section \<open>Properties of name resolution\<close>

lemma find_Some_first:
  assumes "x \<in> set xs" "P x"
  shows "\<exists>y. find P xs = Some y \<and> y \<in> set xs \<and> P y"
proof (cases "find P xs")
  case None
  with assms show ?thesis by (auto simp: find_None_iff)
next
  case (Some y)
  then show ?thesis by (auto simp: find_Some_iff)
qed

text \<open>
  C10. Resolution by name prefers parameters and accepts the underscore prefix: when
  some parameter of the function is named \<open>n\<close> or \<open>_n\<close>, the result is a parameter with
  one of these two names (the first such in declaration order), whatever local or state
  variables the statements of the function mention.
\<close>

theorem find_variable_by_name_parameter_first:
  assumes "param \<in> set (parameters function)"
    and "var_name param = n \<or> var_name param = ''_'' @ n"
  shows "\<exists>p. find_variable_by_name function n = Some p
           \<and> p \<in> set (parameters function)
           \<and> (var_name p = n \<or> var_name p = ''_'' @ n)
           \<and> find (\<lambda>q. var_name q = n \<or> var_name q = ''_'' @ n) (parameters function) = Some p"
proof -
  from find_Some_first[of param "parameters function"
      "\<lambda>q. var_name q = n \<or> var_name q = ''_'' @ n"] assms
  obtain p where p: "find (\<lambda>q. var_name q = n \<or> var_name q = ''_'' @ n) (parameters function) = Some p"
    "p \<in> set (parameters function)" "var_name p = n \<or> var_name p = ''_'' @ n"
    by blast
  then show ?thesis by (simp add: find_variable_by_name_def)
qed

theorem find_variable_by_name_parameter_first_witness:
  "ex_param_amount \<in> set (parameters ex_withdraw)
   \<and> var_name ex_param_amount = ''_'' @ ''amount''
   \<and> ex_state_amount \<in> set (state_variables_written (hd (nodes ex_withdraw)))
   \<and> var_name ex_state_amount = ''amount''
   \<and> find_variable_by_name ex_withdraw ''amount'' = Some ex_param_amount"
  using find_variable_by_name_parameter_first[of ex_param_amount ex_withdraw "''amount''"]
  by (simp add: ex_withdraw_def ex_param_amount_def ex_state_amount_def mk_func_def mk_node_def
      mk_var_def)

section \<open>Termination of graph construction\<close>

text \<open>
  A call cycle: \<^verbatim>\<open>function A(x) { B(x); }\<close> and \<^verbatim>\<open>function B(y) { A(y); }\<close>.
\<close>

definition ex_x :: variable where
  "ex_x = mk_var 1 ''x'' LocalVariable True"

definition ex_y :: variable where
  "ex_y = mk_var 2 ''y'' LocalVariable True"

definition ex_A :: func where
  "ex_A = mk_func 1 ''A'' [ex_x]
     [mk_node (Some (CallExpression (FunctionIdentifier ''B'') [Identifier ex_x]))
        [] [] [ex_x] [] [FunctionCall 2] [2]]"

definition ex_B :: func where
  "ex_B = mk_func 2 ''B'' [ex_y]
     [mk_node (Some (CallExpression (FunctionIdentifier ''A'') [Identifier ex_y]))
        [] [] [ex_y] [] [FunctionCall 1] [5]]"

definition ex_cycle :: contract where
  "ex_cycle = \<lparr>contract_name = ''Cycle'', contract_functions = [ex_A, ex_B]\<rparr>"

text \<open>A data-dependency oracle that reports no dependency at all.\<close>

definition no_dependency :: "variable \<Rightarrow> variable \<Rightarrow> func \<Rightarrow> bool" where
  "no_dependency w v f = False"

lemma taint_loop_processed:
  "distinct pr \<Longrightarrow>
     distinct (snd (taint_loop d c G tp pr))
     \<and> set (snd (taint_loop d c G tp pr)) \<subseteq> set pr \<union> pair_universe c tp"
proof (induction d c G tp pr rule: taint_loop.induct)
  case (1 d c G pr)
  then show ?case by simp
next
  case (2 d c G v f tp pr)
  show ?case
  proof (cases "(v, f) \<in> set pr")
    case True
    with 2 pair_universe_tail[of c tp "(v, f)"] show ?thesis by auto
  next
    case False
    define pr' where "pr' = pr @ [(v, f)]"
    define st where "st = process_pair d c (G, tp) v f pr'"
    have d: "distinct pr'" using False 2 by (simp add: pr'_def)
    have IH: "distinct (snd (taint_loop d c (fst st) (snd st) pr'))
      \<and> set (snd (taint_loop d c (fst st) (snd st) pr')) \<subseteq> set pr' \<union> pair_universe c (snd st)"
      using 2(2)[OF False pr'_def st_def d] .
    have eq: "taint_loop d c G ((v, f) # tp) pr = taint_loop d c (fst st) (snd st) pr'"
      using False by (simp add: pr'_def st_def Let_def)
    have "pair_universe c (snd st) \<subseteq> pair_universe c ((v, f) # tp)"
      unfolding st_def by (rule pair_universe_step)
    moreover have "set pr' \<subseteq> set pr \<union> pair_universe c ((v, f) # tp)"
      using pair_universe_head[of v f c tp] by (auto simp: pr'_def)
    ultimately show ?thesis using IH unfolding eq by blast
  qed
qed

lemma cycle_processed:
  "snd (build_taint_state no_dependency ex_cycle ex_A ex_x) = [(ex_x, ex_A), (ex_y, ex_B)]"
  by code_simp

text \<open>
  C5. Graph construction terminates on every contract (the worklist loop is a total
  function: its termination is proved above for every contract, graph, worklist and
  processed set, cyclic call relations included). It returns the graph together with
  the pairs it processed: no pair is processed twice, every processed pair belongs to
  the finite set of (variable, function) pairs of the unit and the seed, and so the
  number of processed pairs is at most the size of that set.
\<close>

theorem build_taint_graph_terminates:
  "\<exists>processed. build_taint_state is_dependent c source_func source_var
        = (build_taint_graph is_dependent c source_func source_var, processed)
     \<and> distinct processed
     \<and> set processed \<subseteq> pair_universe c [(source_var, source_func)]
     \<and> finite (pair_universe c [(source_var, source_func)])
     \<and> length processed \<le> card (pair_universe c [(source_var, source_func)])"
proof -
  define G0 where "G0 = add_node empty_graph (node_key source_var (Some source_func))
                \<lparr>attr_var = source_var, attr_function = source_func,
                 attr_var_type = get_var_type source_var\<rparr>"
  define r where "r = taint_loop is_dependent c G0 [(source_var, source_func)] []"
  have r: "build_taint_state is_dependent c source_func source_var = r"
    by (simp add: build_taint_state_def r_def G0_def)
  have p: "distinct (snd r) \<and> set (snd r) \<subseteq> pair_universe c [(source_var, source_func)]"
    using taint_loop_processed[of "[]" is_dependent c G0 "[(source_var, source_func)]"]
    by (simp add: r_def)
  then have "card (set (snd r)) \<le> card (pair_universe c [(source_var, source_func)])"
    by (intro card_mono finite_pair_universe) simp
  then have "length (snd r) \<le> card (pair_universe c [(source_var, source_func)])"
    using p by (simp add: distinct_card)
  then show ?thesis
    using p r finite_pair_universe[of c "[(source_var, source_func)]"]
    by (intro exI[of _ "snd r"]) (simp add: build_taint_graph_def)
qed

theorem build_taint_graph_terminates_witness:
  "snd (build_taint_state no_dependency ex_cycle ex_A ex_x) = [(ex_x, ex_A), (ex_y, ex_B)]
   \<and> 2 \<le> card (pair_universe ex_cycle [(ex_x, ex_A)])"
proof -
  from build_taint_graph_terminates[of no_dependency ex_cycle ex_A ex_x]
  obtain processed where
    st: "build_taint_state no_dependency ex_cycle ex_A ex_x
           = (build_taint_graph no_dependency ex_cycle ex_A ex_x, processed)"
    and len: "length processed \<le> card (pair_universe ex_cycle [(ex_x, ex_A)])"
    by blast
  from st have "processed = [(ex_x, ex_A), (ex_y, ex_B)]"
    using cycle_processed by simp
  with len show ?thesis using cycle_processed by simp
qed

section \<open>Node keys of overloaded functions\<close>

text \<open>
  A contract with a state variable \<open>rate\<close>, a setter, and two overloads of \<open>compute\<close>
  that both read \<open>rate\<close>:
  \<^verbatim>\<open>function setRate(uint r) { rate = r; }\<close>,
  \<^verbatim>\<open>function compute(uint a) returns (uint) { return rate * a; }\<close> and
  \<^verbatim>\<open>function compute(address b) returns (uint) { return rate; }\<close>.
\<close>

definition ex_rate :: variable where
  "ex_rate = mk_var 1 ''rate'' StateVariable False"

definition ex_new_rate :: variable where
  "ex_new_rate = mk_var 2 ''r'' LocalVariable True"

definition ex_amount_a :: variable where
  "ex_amount_a = mk_var 3 ''a'' LocalVariable True"

definition ex_setRate :: func where
  "ex_setRate = mk_func 1 ''setRate'' [ex_new_rate]
     [mk_node (Some (AssignmentOperation ''='' (Identifier ex_rate) (Identifier ex_new_rate)))
        [] [ex_rate] [ex_new_rate] [] [] [3]]"

definition ex_compute1 :: func where
  "ex_compute1 = mk_func 2 ''compute'' [ex_amount_a]
     [mk_node (Some (BinaryOperation ''*'' (Identifier ex_rate) (Identifier ex_amount_a)))
        [] [] [ex_amount_a] [ex_rate] [] [6]]"

definition ex_compute2 :: func where
  "ex_compute2 = mk_func 3 ''compute'' [mk_var 4 ''b'' LocalVariable True]
     [mk_node (Some (Identifier ex_rate)) [] [] [] [ex_rate] [] [9]]"

definition ex_overloads :: contract where
  "ex_overloads = \<lparr>contract_name = ''Rates'',
                    contract_functions = [ex_setRate, ex_compute1, ex_compute2]\<rparr>"

text \<open>
  C2. The claim that distinct (variable, function) pairs have distinct node keys fails
  in the code, whose key is the text \<open>name@function-name\<close>: the two overloads of
  \<open>compute\<close> are different functions with one name, so the pairs (\<open>rate\<close>, first
  overload) and (\<open>rate\<close>, second overload) both receive the key \<open>rate@compute\<close>. The
  graph built from \<open>rate\<close> in \<open>setRate\<close> processes three pairs and holds two nodes: the
  two overloads share one node, which also carries an edge to itself. A pair without a
  function receives the function name \<open>global\<close>, so it shares its key with the same
  variable in a function of that name.
\<close>

theorem node_key_overloads_collide:
  "(ex_rate, Some ex_compute1) \<noteq> (ex_rate, Some ex_compute2)
   \<and> node_key ex_rate (Some ex_compute1) = ''rate@compute''
   \<and> node_key ex_rate (Some ex_compute2) = ''rate@compute''
   \<and> snd (build_taint_state no_dependency ex_overloads ex_setRate ex_rate)
       = [(ex_rate, ex_setRate), (ex_rate, ex_compute1), (ex_rate, ex_compute2)]
   \<and> map fst (graph_nodes (build_taint_graph no_dependency ex_overloads ex_setRate ex_rate))
       = [''rate@setRate'', ''rate@compute'']
   \<and> map fst (graph_edges (build_taint_graph no_dependency ex_overloads ex_setRate ex_rate))
       = [(''rate@setRate'', ''rate@compute''), (''rate@compute'', ''rate@compute'')]
   \<and> (ex_rate, None) \<noteq> (ex_rate, Some (mk_func 4 ''global'' [] []))
   \<and> node_key ex_rate None = ''rate@global''
   \<and> node_key ex_rate (Some (mk_func 4 ''global'' [] [])) = ''rate@global''"
  by code_simp

theorem node_key_overloads_collide_witness:
  "node_key ex_rate (Some ex_compute1) = node_key ex_rate (Some ex_compute2)
   \<and> ex_compute1 \<noteq> ex_compute2"
  using node_key_overloads_collide by simp

section \<open>Nodes and edges of the built graph\<close>

text \<open>
  The keys of the edges and of the nodes of a graph, and the invariant carried through
  the propagation routines: the edge list has one entry per ordered pair of keys, and
  given sets of edge keys and node keys stay in the graph.
\<close>

definition edge_keys :: "digraph \<Rightarrow> (string \<times> string) set" where
  "edge_keys G = set (map fst (graph_edges G))"

definition node_keys :: "digraph \<Rightarrow> string set" where
  "node_keys G = set (map fst (graph_nodes G))"

definition keeps :: "bool \<Rightarrow> (string \<times> string) set \<Rightarrow> string set \<Rightarrow> digraph \<times> worklist \<Rightarrow> bool" where
  "keeps single K N st \<longleftrightarrow>
     (single \<longrightarrow> distinct (map fst (graph_edges (fst st))))
     \<and> K \<subseteq> edge_keys (fst st) \<and> N \<subseteq> node_keys (fst st)"

lemma graph_edges_add_node [simp]: "graph_edges (add_node G k a) = graph_edges G"
  by (simp add: add_node_def)

lemma graph_edges_ensure_node [simp]: "graph_edges (ensure_node G k) = graph_edges G"
  by (simp add: ensure_node_def)

lemma graph_edges_add_edge:
  "graph_edges (add_edge G u v a) = AList.update (u, v) a (graph_edges G)"
  by (simp add: add_edge_def Let_def)

lemma node_keys_add_node: "node_keys (add_node G k a) = insert k (node_keys G)"
  by (simp add: add_node_def node_keys_def AList.dom_update)

lemma node_keys_ensure_node: "node_keys (ensure_node G k) = insert k (node_keys G)"
  by (auto simp: ensure_node_def node_keys_def has_node_def)

lemma node_keys_edges_update [simp]: "node_keys (G\<lparr>graph_edges := es\<rparr>) = node_keys G"
  by (simp add: node_keys_def)

lemma node_keys_add_edge: "node_keys (add_edge G u v a) = insert u (insert v (node_keys G))"
  by (simp add: add_edge_def Let_def node_keys_ensure_node insert_commute)

lemma edge_keys_add_edge: "edge_keys (add_edge G u v a) = insert (u, v) (edge_keys G)"
  by (simp add: edge_keys_def graph_edges_add_edge AList.dom_update)

lemma graph_edges_add_tainted:
  "graph_edges (fst (add_tainted st pr v f a b e l))
     = AList.update (a, b) \<lparr>edge_expression = e, edge_line = l\<rparr> (graph_edges (fst st))"
  by (simp add: add_tainted_def Let_def graph_edges_add_edge)

lemma edge_keys_add_tainted:
  "edge_keys (fst (add_tainted st pr v f a b e l)) = insert (a, b) (edge_keys (fst st))"
  by (simp add: edge_keys_def graph_edges_add_tainted AList.dom_update)

lemma node_keys_add_tainted:
  "node_keys (fst (add_tainted st pr v f a b e l))
     = insert a (insert b (insert (node_key v (Some f)) (node_keys (fst st))))"
  by (auto simp: add_tainted_def Let_def node_keys_add_edge node_keys_add_node)

lemma keeps_add_tainted: "keeps sg K N st \<Longrightarrow> keeps sg K N (add_tainted st pr v f a b e l)"
  by (auto simp: keeps_def edge_keys_add_tainted node_keys_add_tainted graph_edges_add_tainted
      AList.distinct_update)

lemma fold_preserves:
  assumes "\<And>x st. x \<in> set xs \<Longrightarrow> P st \<Longrightarrow> P (g x st)" and "P st"
  shows "P (fold g xs st)"
  using assms by (induction xs arbitrary: st) auto

lemma keeps_fold:
  assumes "\<And>x st. x \<in> set xs \<Longrightarrow> keeps sg K N st \<Longrightarrow> keeps sg K N (g x st)" and "keeps sg K N st"
  shows "keeps sg K N (fold g xs st)"
  using assms by (rule fold_preserves[where P="keeps sg K N"])

lemma keeps_if:
  "(t \<Longrightarrow> keeps sg K N x) \<Longrightarrow> (\<not> t \<Longrightarrow> keeps sg K N y) \<Longrightarrow> keeps sg K N (if t then x else y)"
  by simp

lemma keeps_heuristic_taint: "keeps sg K N st \<Longrightarrow> keeps sg K N (heuristic_taint st f v k pr n)"
  unfolding heuristic_taint_def Let_def
  apply (cases "expression n")
   apply simp
  apply (simp del: fold_append)
  apply (intro impI keeps_fold)
   apply (simp add: keeps_add_tainted)
  apply assumption
  done

lemma keeps_dependency_taint: "keeps sg K N st \<Longrightarrow> keeps sg K N (dependency_taint d st f v k pr n)"
  unfolding dependency_taint_def
  apply (rule keeps_fold)
   apply (simp add: keeps_add_tainted)
  apply assumption
  done

lemma keeps_process_function_taint:
  "keeps sg K N st \<Longrightarrow> keeps sg K N (process_function_taint d st f v k pr)"
  unfolding process_function_taint_def
  apply (rule keeps_fold)
   apply (simp add: keeps_heuristic_taint keeps_dependency_taint)
  apply assumption
  done

lemma keeps_process_state_var_taint:
  "keeps sg K N st \<Longrightarrow> keeps sg K N (process_state_var_taint st c f v k pr)"
  unfolding process_state_var_taint_def
  apply (rule keeps_fold)
   apply (rule keeps_if)
    apply (rule keeps_fold)
     apply (simp add: keeps_add_tainted)
    apply assumption
   apply assumption
  apply assumption
  done

lemma keeps_call_taint:
  "keeps sg K N st \<Longrightarrow>
   keeps sg K N (case expression n of
               None \<Rightarrow> st
             | Some e \<Rightarrow>
                (case arguments e of
                   None \<Rightarrow> st
                 | Some args \<Rightarrow>
                     if i < length args then
                       fold (\<lambda>arg_var st. add_tainted st pr arg_var g (kf arg_var) k x l)
                         (get_expression_variables (args ! i)) st
                     else st))"
  apply (cases "expression n")
   apply simp
  subgoal for e
    apply (cases "arguments e")
     apply simp
    apply simp
    apply (intro impI keeps_fold)
     apply (simp add: keeps_add_tainted)
    apply assumption
    done
  done

lemma keeps_process_parameter_taint:
  "keeps sg K N st \<Longrightarrow> keeps sg K N (process_parameter_taint st c f v k pr)"
  unfolding process_parameter_taint_def
  apply (cases "index_of v (parameters f)")
   apply simp
  apply (simp only: option.case)
  apply (rule keeps_fold)
   apply (rule keeps_fold)
    apply (rule keeps_fold)
     apply (rule keeps_if)
      apply (rule keeps_call_taint)
      apply assumption
     apply assumption
    apply assumption
   apply assumption
  apply assumption
  done

lemma keeps_process_pair: "keeps sg K N st \<Longrightarrow> keeps sg K N (process_pair d c st v f pr)"
  unfolding process_pair_def Let_def
  by (simp add: keeps_process_parameter_taint keeps_process_state_var_taint
      keeps_process_function_taint)

lemma keeps_taint_loop:
  "keeps sg K N (G, tp) \<Longrightarrow> keeps sg K N (taint_loop d c G tp pr)"
proof (induction d c G tp pr rule: taint_loop.induct)
  case (1 d c G pr)
  then show ?case by (simp add: keeps_def)
next
  case (2 d c G v f tp pr)
  show ?case
  proof (cases "(v, f) \<in> set pr")
    case True
    have "keeps sg K N (G, tp)" using 2(3) by (simp add: keeps_def)
    with True 2(1) show ?thesis by simp
  next
    case False
    define pr' where "pr' = pr @ [(v, f)]"
    define st where "st = process_pair d c (G, tp) v f pr'"
    have "keeps sg K N (G, tp)" using 2(3) by (simp add: keeps_def)
    then have "keeps sg K N st" unfolding st_def by (rule keeps_process_pair)
    then have "keeps sg K N (fst st, snd st)" by simp
    from 2(2)[OF False pr'_def st_def this]
    show ?thesis using False by (simp add: pr'_def st_def Let_def)
  qed
qed


lemma fold_add_tainted_edge_keys:
  "edge_keys (fst (fold (\<lambda>w st. if P w then add_tainted st pr w f (ka w) (kb w) e l else st) ws st))
     = edge_keys (fst st) \<union> {(ka w, kb w) | w. w \<in> set ws \<and> P w}"
  by (induction ws arbitrary: st) (auto simp: edge_keys_add_tainted)

lemma fold_add_tainted_node_keys:
  "node_keys (fst (fold (\<lambda>w st. if P w then add_tainted st pr w f (ka w) (kb w) e l else st) ws st))
     = node_keys (fst st) \<union> (\<Union>w\<in>{w \<in> set ws. P w}. {ka w, kb w, node_key w (Some f)})"
  by (induction ws arbitrary: st) (auto simp: node_keys_add_tainted)

subsection \<open>The justification of an edge\<close>

text \<open>
  \<open>taints\<close> collects the two conditions under which \<^verbatim>\<open>_process_function_taint\<close> adds
  an edge for a variable written by a statement: the data-dependency rule, or the
  co-occurrence rule with its guard. \<open>justification\<close> is the pair of attributes that
  both rules give to the edge: the text of the statement's expression and its first
  source line.
\<close>

definition taints ::
  "(variable \<Rightarrow> variable \<Rightarrow> func \<Rightarrow> bool) \<Rightarrow> func \<Rightarrow> variable \<Rightarrow> node \<Rightarrow> variable \<Rightarrow> bool" where
  "taints is_dependent function var n w \<longleftrightarrow>
     w \<in> set (local_variables_written n @ state_variables_written n)
     \<and> (is_dependent w var function
        \<or> (case expression n of
              None \<Rightarrow> False
            | Some e \<Rightarrow> var \<in> set (get_expression_variables e)
                        \<and> w \<notin> set (get_expression_variables e)))"

definition justification :: "node \<Rightarrow> edge_attrs" where
  "justification n =
     \<lparr>edge_expression = (case expression n of Some e \<Rightarrow> str_expression e
                                              | None \<Rightarrow> ''unknown expression''),
      edge_line = first_line n\<rparr>"

lemma map_of_add_tainted:
  "map_of (graph_edges (fst (add_tainted st pr v f a b e l)))
     = (map_of (graph_edges (fst st)))((a, b) \<mapsto> \<lparr>edge_expression = e, edge_line = l\<rparr>)"
  by (simp add: graph_edges_add_tainted AList.update_conv')

lemma fold_add_tainted_attrs:
  "map_of (graph_edges (fst (fold (\<lambda>w st. if P w then add_tainted st pr w f (ka w) (kb w) e l else st) ws st))) key
     = (if \<exists>w\<in>set ws. P w \<and> key = (ka w, kb w)
        then Some \<lparr>edge_expression = e, edge_line = l\<rparr>
        else map_of (graph_edges (fst st)) key)"
proof (induction ws arbitrary: st)
  case Nil
  then show ?case by simp
next
  case (Cons x ws)
  show ?case
  proof (cases "P x")
    case False
    then show ?thesis using Cons.IH[of st] by auto
  next
    case True
    have "map_of (graph_edges (fst (add_tainted st pr x f (ka x) (kb x) e l))) key
        = (if key = (ka x, kb x) then Some \<lparr>edge_expression = e, edge_line = l\<rparr>
           else map_of (graph_edges (fst st)) key)"
      by (simp add: map_of_add_tainted)
    then show ?thesis
      using True Cons.IH[of "add_tainted st pr x f (ka x) (kb x) e l"] by auto
  qed
qed

lemma heuristic_taint_attrs:
  "map_of (graph_edges (fst (heuristic_taint st f var k pr n))) key
     = (if \<exists>w\<in>set (local_variables_written n @ state_variables_written n).
              (case expression n of
                 None \<Rightarrow> False
               | Some e \<Rightarrow> var \<in> set (get_expression_variables e)
                           \<and> w \<notin> set (get_expression_variables e))
              \<and> key = (k, node_key w (Some f))
        then Some (justification n)
        else map_of (graph_edges (fst st)) key)"
proof (cases "expression n")
  case None
  then show ?thesis by (simp add: heuristic_taint_def)
next
  case (Some e)
  show ?thesis
  proof (cases "var \<in> set (get_expression_variables e)")
    case False
    with Some show ?thesis by (simp add: heuristic_taint_def)
  next
    case True
    have h: "heuristic_taint st f var k pr n =
        fold (\<lambda>w st. if w \<notin> set (get_expression_variables e)
                       then add_tainted st pr w f k (node_key w (Some f)) (str_expression e) (first_line n)
                       else st)
          (local_variables_written n @ state_variables_written n) st"
      using Some True by (simp add: heuristic_taint_def del: fold_append)
    have j: "justification n = \<lparr>edge_expression = str_expression e, edge_line = first_line n\<rparr>"
      using Some by (simp add: justification_def)
    show ?thesis
      unfolding h j
      using fold_add_tainted_attrs[where P="\<lambda>w. w \<notin> set (get_expression_variables e)"
          and ka="\<lambda>w. k" and kb="\<lambda>w. node_key w (Some f)" and pr=pr and f=f
          and e="str_expression e" and l="first_line n"
          and ws="local_variables_written n @ state_variables_written n" and st=st and key=key]
        Some True
      by simp
  qed
qed

lemma dependency_taint_attrs:
  "map_of (graph_edges (fst (dependency_taint d st f var k pr n))) key
     = (if \<exists>w\<in>set (local_variables_written n @ state_variables_written n).
              d w var f \<and> key = (k, node_key w (Some f))
        then Some (justification n)
        else map_of (graph_edges (fst st)) key)"
  unfolding dependency_taint_def justification_def
  by (rule fold_add_tainted_attrs[where P="\<lambda>w. d w var f" and ka="\<lambda>w. k"
        and kb="\<lambda>w. node_key w (Some f)"])

lemma node_step_attrs:
  "map_of (graph_edges (fst (dependency_taint d (heuristic_taint st f var k pr n) f var k pr n))) key
     = (if \<exists>w. taints d f var n w \<and> key = (k, node_key w (Some f))
        then Some (justification n)
        else map_of (graph_edges (fst st)) key)"
  unfolding dependency_taint_attrs heuristic_taint_attrs taints_def
  by auto

lemma fold_nodes_untouched:
  assumes "\<forall>n\<in>set ns. \<forall>w. taints d f var n w \<longrightarrow> (k, node_key w (Some f)) \<noteq> key"
  shows "map_of (graph_edges (fst (fold (\<lambda>n st. dependency_taint d
                     (heuristic_taint st f var k pr n) f var k pr n) ns st))) key
           = map_of (graph_edges (fst st)) key"
  using assms
proof (induction ns arbitrary: st)
  case Nil
  then show ?case by simp
next
  case (Cons n ns)
  have "map_of (graph_edges (fst (dependency_taint d (heuristic_taint st f var k pr n) f var k pr n))) key
      = map_of (graph_edges (fst st)) key"
    using Cons.prems by (auto simp: node_step_attrs)
  with Cons show ?case by simp
qed

lemma process_function_taint_last:
  assumes "nodes f = ns1 @ n # ns2" and "taints d f var n w"
    and "\<forall>n'\<in>set ns2. \<forall>w'. taints d f var n' w' \<longrightarrow> node_key w' (Some f) \<noteq> node_key w (Some f)"
  shows "map_of (graph_edges (fst (process_function_taint d st f var k pr))) (k, node_key w (Some f))
           = Some (justification n)"
proof -
  let ?step = "\<lambda>n st. dependency_taint d (heuristic_taint st f var k pr n) f var k pr n"
  let ?key = "(k, node_key w (Some f))"
  define st1 where "st1 = fold ?step ns1 st"
  have "process_function_taint d st f var k pr = fold ?step ns2 (?step n st1)"
    by (simp add: process_function_taint_def assms(1) st1_def)
  moreover have "map_of (graph_edges (fst (fold ?step ns2 (?step n st1)))) ?key
      = map_of (graph_edges (fst (?step n st1))) ?key"
    by (rule fold_nodes_untouched) (use assms(3) in auto)
  moreover have "map_of (graph_edges (fst (?step n st1))) ?key = Some (justification n)"
    using assms(2) by (auto simp: node_step_attrs)
  ultimately show ?thesis by simp
qed

subsection \<open>Example: one variable written by two statements\<close>

text \<open>
  \<^verbatim>\<open>function f(uint a) { w = a; w = a + 1; }\<close>, with a data-dependency oracle that
  reports that \<open>w\<close> depends on \<open>a\<close>. \<open>seed_graph\<close> is the graph as
  \<^verbatim>\<open>_build_taint_graph\<close> has it when the loop starts.
\<close>

definition ex_w :: variable where
  "ex_w = mk_var 2 ''w'' LocalVariable False"

definition ex_assign1 :: node where
  "ex_assign1 = mk_node (Some (AssignmentOperation ''='' (Identifier ex_w) (Identifier ex_var_a)))
     [ex_w] [] [ex_var_a] [] [] [1]"

definition ex_assign2 :: node where
  "ex_assign2 = mk_node
     (Some (AssignmentOperation ''='' (Identifier ex_w)
              (BinaryOperation ''+'' (Identifier ex_var_a) (Literal ''1''))))
     [ex_w] [] [ex_var_a] [] [] [2]"

definition ex_f :: func where
  "ex_f = mk_func 1 ''f'' [ex_var_a] [ex_assign1, ex_assign2]"

definition ex_contract_f :: contract where
  "ex_contract_f = \<lparr>contract_name = ''C'', contract_functions = [ex_f]\<rparr>"

definition ex_dependency :: "variable \<Rightarrow> variable \<Rightarrow> func \<Rightarrow> bool" where
  "ex_dependency written_var var function = (written_var = ex_w \<and> var = ex_var_a)"

definition seed_graph :: "variable \<Rightarrow> func \<Rightarrow> digraph" where
  "seed_graph source_var source_func =
     add_node empty_graph (node_key source_var (Some source_func))
       \<lparr>attr_var = source_var, attr_function = source_func,
        attr_var_type = get_var_type source_var\<rparr>"

lemma two_writes_edges:
  "graph_edges (build_taint_graph ex_dependency ex_contract_f ex_f ex_var_a)
     = [((''a@f'', ''w@f''), \<lparr>edge_expression = ''w = a + 1'', edge_line = Some 2\<rparr>)]"
  by code_simp

text \<open>
  \<open>ex_earlier_graph\<close> is the seed graph of \<open>f\<close> with two edges recorded earlier, both
  with line 0: one from \<open>a@f\<close> to \<open>w@f\<close> justified by \<open>w = 2 * a\<close>, one from \<open>a@f\<close> to
  \<open>u@f\<close> justified by \<open>u = a\<close>.
\<close>

definition ex_earlier_graph :: digraph where
  "ex_earlier_graph =
     add_edge (add_edge (seed_graph ex_var_a ex_f) ''a@f'' ''w@f''
                 \<lparr>edge_expression = ''w = 2 * a'', edge_line = Some 0\<rparr>)
       ''a@f'' ''u@f'' \<lparr>edge_expression = ''u = a'', edge_line = Some 0\<rparr>"

lemma earlier_graph_loop:
  "graph_edges (fst (taint_loop ex_dependency ex_contract_f ex_earlier_graph [(ex_var_a, ex_f)] []))
     = [((''a@f'', ''w@f''), \<lparr>edge_expression = ''w = a + 1'', edge_line = Some 2\<rparr>),
        ((''a@f'', ''u@f''), \<lparr>edge_expression = ''u = a'', edge_line = Some 0\<rparr>)]"
  by code_simp

lemma earlier_graph_edges:
  "graph_edges ex_earlier_graph
     = [((''a@f'', ''w@f''), \<lparr>edge_expression = ''w = 2 * a'', edge_line = Some 0\<rparr>),
        ((''a@f'', ''u@f''), \<lparr>edge_expression = ''u = a'', edge_line = Some 0\<rparr>)]"
  by code_simp

text \<open>
  C3, as the code has it. The graph is a \<^verbatim>\<open>DiGraph\<close>, so it holds at most one edge
  per ordered pair of node keys, and the builder replaces the justification of an edge
  it records again: recording an edge for a pair leaves the attributes of all other
  pairs as they were and gives this pair the new expression and line, and after
  \<^verbatim>\<open>_process_function_taint\<close> the edge to a written variable carries the justification
  of the last statement of the function that taints this variable (by either rule),
  whatever the edge carried before. No ordered pair that has an edge loses it: the
  worklist loop started from any graph, worklist and processed set keeps every pair.
\<close>

theorem edges_one_per_pair_later_justification:
  assumes "distinct (map fst (graph_edges G))"
  shows "distinct (map fst (graph_edges (fst (taint_loop d c G tp pr))))
       \<and> edge_keys G \<subseteq> edge_keys (fst (taint_loop d c G tp pr))
       \<and> map_of (graph_edges (fst (add_tainted (G, tp) pr v f a b e l)))
           = (map_of (graph_edges G))((a, b) \<mapsto> \<lparr>edge_expression = e, edge_line = l\<rparr>)
       \<and> (nodes f = ns1 @ n # ns2 \<longrightarrow> taints d f var n w \<longrightarrow>
            (\<forall>n'\<in>set ns2. \<forall>w'. taints d f var n' w'
                 \<longrightarrow> node_key w' (Some f) \<noteq> node_key w (Some f)) \<longrightarrow>
            map_of (graph_edges (fst (process_function_taint d (G, tp) f var k pr)))
              (k, node_key w (Some f)) = Some (justification n))"
proof -
  have "keeps True (edge_keys G) {} (G, tp)"
    using assms by (simp add: keeps_def)
  then have "keeps True (edge_keys G) {} (taint_loop d c G tp pr)"
    by (rule keeps_taint_loop)
  then have 1: "distinct (map fst (graph_edges (fst (taint_loop d c G tp pr))))
       \<and> edge_keys G \<subseteq> edge_keys (fst (taint_loop d c G tp pr))"
    by (simp add: keeps_def)
  have 2: "map_of (graph_edges (fst (add_tainted (G, tp) pr v f a b e l)))
           = (map_of (graph_edges G))((a, b) \<mapsto> \<lparr>edge_expression = e, edge_line = l\<rparr>)"
    using map_of_add_tainted[of "(G, tp)" pr v f a b e l] by simp
  show ?thesis
    using 1 2 process_function_taint_last[of f ns1 n ns2 d var w "(G, tp)" k pr]
    by blast
qed

theorem edges_one_per_pair_later_justification_witness:
  "map (\<lambda>e. (fst e, edge_expression (snd e))) (graph_edges ex_earlier_graph)
     = [((''a@f'', ''w@f''), ''w = 2 * a''), ((''a@f'', ''u@f''), ''u = a'')]
   \<and> distinct (map fst (graph_edges
        (fst (taint_loop ex_dependency ex_contract_f ex_earlier_graph [(ex_var_a, ex_f)] []))))
   \<and> {(''a@f'', ''w@f''), (''a@f'', ''u@f'')}
       \<subseteq> edge_keys (fst (taint_loop ex_dependency ex_contract_f ex_earlier_graph
                              [(ex_var_a, ex_f)] []))
   \<and> nodes ex_f = [ex_assign1] @ ex_assign2 # []
   \<and> taints ex_dependency ex_f ex_var_a ex_assign2 ex_w
   \<and> map_of (graph_edges (fst (process_function_taint ex_dependency
                (ex_earlier_graph, [(ex_var_a, ex_f)]) ex_f ex_var_a ''a@f'' [])))
         (''a@f'', ''w@f'')
       = Some \<lparr>edge_expression = ''w = a + 1'', edge_line = Some 2\<rparr>
   \<and> map (\<lambda>e. (fst e, edge_expression (snd e)))
        (graph_edges (fst (taint_loop ex_dependency ex_contract_f ex_earlier_graph
                             [(ex_var_a, ex_f)] [])))
       = [((''a@f'', ''w@f''), ''w = a + 1''), ((''a@f'', ''u@f''), ''u = a'')]"
proof -
  have h: "distinct (map fst (graph_edges ex_earlier_graph))"
    by (simp add: earlier_graph_edges)
  have k: "edge_keys ex_earlier_graph = {(''a@f'', ''w@f''), (''a@f'', ''u@f'')}"
    by (simp add: edge_keys_def earlier_graph_edges)
  have n: "nodes ex_f = [ex_assign1] @ ex_assign2 # []"
    by (simp add: ex_f_def mk_func_def)
  have t: "taints ex_dependency ex_f ex_var_a ex_assign2 ex_w"
    by (simp add: taints_def ex_dependency_def ex_assign2_def mk_node_def)
  have l: "\<forall>n'\<in>set []. \<forall>w'. taints ex_dependency ex_f ex_var_a n' w'
             \<longrightarrow> node_key w' (Some ex_f) \<noteq> node_key ex_w (Some ex_f)" by simp
  have j: "justification ex_assign2 = \<lparr>edge_expression = ''w = a + 1'', edge_line = Some 2\<rparr>"
    by (simp add: justification_def ex_assign2_def mk_node_def first_line_def ex_w_def
        ex_var_a_def mk_var_def)
  have w: "node_key ex_w (Some ex_f) = ''w@f''"
    by (simp add: node_key_def ex_w_def ex_f_def mk_var_def mk_func_def)
  have m: "map (\<lambda>e. (fst e, edge_expression (snd e)))
        (graph_edges (fst (taint_loop ex_dependency ex_contract_f ex_earlier_graph
                             [(ex_var_a, ex_f)] [])))
       = [((''a@f'', ''w@f''), ''w = a + 1''), ((''a@f'', ''u@f''), ''u = a'')]"
    unfolding earlier_graph_loop by simp
  from edges_one_per_pair_later_justification[OF h, of ex_dependency ex_contract_f
      "[(ex_var_a, ex_f)]" "[]" ex_var_a ex_f "''a@f''" "''w@f''" "''w = a''" "Some 1"
      "[ex_assign1]" ex_assign2 "[]" ex_var_a ex_w "''a@f''"]
  have r: "distinct (map fst (graph_edges
        (fst (taint_loop ex_dependency ex_contract_f ex_earlier_graph [(ex_var_a, ex_f)] []))))"
    "edge_keys ex_earlier_graph
       \<subseteq> edge_keys (fst (taint_loop ex_dependency ex_contract_f ex_earlier_graph
                              [(ex_var_a, ex_f)] []))"
    "map_of (graph_edges (fst (process_function_taint ex_dependency (ex_earlier_graph, [(ex_var_a, ex_f)])
                ex_f ex_var_a ''a@f'' []))) (''a@f'', node_key ex_w (Some ex_f))
       = Some (justification ex_assign2)"
    using n t l by simp_all
  show ?thesis
    using r h k n t j w m by (simp add: earlier_graph_edges)
qed

text \<open>
  The claim that two justifications for one ordered pair give two edges fails: both
  statements of \<open>f\<close> make \<open>w\<close> depend on \<open>a\<close>, with the justifications \<open>w = a\<close> and
  \<open>w = a + 1\<close>, and the built graph holds the one edge from \<open>a@f\<close> to \<open>w@f\<close> with the
  second justification only.
\<close>

theorem edges_multiple_counterexample:
  "str_expression (AssignmentOperation ''='' (Identifier ex_w) (Identifier ex_var_a)) = ''w = a''
   \<and> ex_dependency ex_w ex_var_a ex_f
   \<and> nodes ex_f = [ex_assign1, ex_assign2]
   \<and> map (\<lambda>e. (fst e, edge_expression (snd e)))
        (graph_edges (build_taint_graph ex_dependency ex_contract_f ex_f ex_var_a))
       = [((''a@f'', ''w@f''), ''w = a + 1'')]"
  by code_simp

subsection \<open>The co-occurrence rule\<close>

text \<open>
  A statement whose expression \<^verbatim>\<open>g(a)\<close> mentions \<open>a\<close> and that is reported to write
  the state variable \<open>s\<close>, which the expression does not mention.
\<close>

definition ex_s :: variable where
  "ex_s = mk_var 3 ''s'' StateVariable False"

definition ex_effect :: node where
  "ex_effect = mk_node (Some (CallExpression (FunctionIdentifier ''g'') [Identifier ex_var_a]))
     [] [ex_s] [ex_var_a] [] [] [4]"

text \<open>
  C4, as the code has it. For a statement with an expression among whose variables the
  current variable occurs, the co-occurrence rule adds an edge from the current node to
  the node of a written variable exactly for the written variables that do not occur
  among the variables of the statement's expression (the same set in which the current
  variable was looked up; the target of an assignment is part of it), and these
  variables have nodes afterwards.
\<close>

theorem heuristic_taint_edges:
  assumes "expression n = Some e" and "var \<in> set (get_expression_variables e)"
  shows "edge_keys (fst (heuristic_taint st f var k pr n))
           = edge_keys (fst st) \<union>
             {(k, node_key w (Some f)) | w.
                w \<in> set (local_variables_written n @ state_variables_written n)
                \<and> w \<notin> set (get_expression_variables e)}
         \<and> {node_key w (Some f) | w.
                w \<in> set (local_variables_written n @ state_variables_written n)
                \<and> w \<notin> set (get_expression_variables e)}
             \<subseteq> node_keys (fst (heuristic_taint st f var k pr n))"
proof -
  have h: "heuristic_taint st f var k pr n =
        fold (\<lambda>w st. if w \<notin> set (get_expression_variables e)
                       then add_tainted st pr w f k (node_key w (Some f)) (str_expression e) (first_line n)
                       else st)
          (local_variables_written n @ state_variables_written n) st"
    using assms by (simp add: heuristic_taint_def del: fold_append)
  show ?thesis
    unfolding h
    using fold_add_tainted_edge_keys[where P="\<lambda>w. w \<notin> set (get_expression_variables e)"
        and ka="\<lambda>w. k" and kb="\<lambda>w. node_key w (Some f)" and pr=pr and f=f
        and e="str_expression e" and l="first_line n"
        and ws="local_variables_written n @ state_variables_written n" and st=st]
      fold_add_tainted_node_keys[where P="\<lambda>w. w \<notin> set (get_expression_variables e)"
        and ka="\<lambda>w. k" and kb="\<lambda>w. node_key w (Some f)" and pr=pr and f=f
        and e="str_expression e" and l="first_line n"
        and ws="local_variables_written n @ state_variables_written n" and st=st]
    by (simp only:) blast
qed

theorem heuristic_taint_edges_witness:
  "expression ex_effect = Some (CallExpression (FunctionIdentifier ''g'') [Identifier ex_var_a])
   \<and> ex_var_a \<in> set (get_expression_variables
                         (CallExpression (FunctionIdentifier ''g'') [Identifier ex_var_a]))
   \<and> edge_keys (fst (heuristic_taint (seed_graph ex_var_a ex_f, []) ex_f ex_var_a ''a@f''
                        [(ex_var_a, ex_f)] ex_effect))
       = {(''a@f'', ''s@f'')}"
proof -
  have h1: "expression ex_effect = Some (CallExpression (FunctionIdentifier ''g'') [Identifier ex_var_a])"
    by (simp add: ex_effect_def mk_node_def)
  have h2: "ex_var_a \<in> set (get_expression_variables
                         (CallExpression (FunctionIdentifier ''g'') [Identifier ex_var_a]))"
    by simp
  have e: "edge_keys (fst (seed_graph ex_var_a ex_f, [])) = {}"
    by (simp add: seed_graph_def empty_graph_def edge_keys_def)
  have w: "{(''a@f'', node_key w (Some ex_f)) | w.
                w \<in> set (local_variables_written ex_effect @ state_variables_written ex_effect)
                \<and> w \<notin> set (get_expression_variables
                         (CallExpression (FunctionIdentifier ''g'') [Identifier ex_var_a]))}
           = {(''a@f'', ''s@f'')}"
    by (auto simp: ex_effect_def mk_node_def ex_s_def ex_var_a_def mk_var_def node_key_def
        ex_f_def mk_func_def)
  from heuristic_taint_edges[OF h1 h2, of "(seed_graph ex_var_a ex_f, [])" ex_f "''a@f''"
      "[(ex_var_a, ex_f)]"]
  show ?thesis using h1 h2 e w by simp
qed

text \<open>
  With the statement's read set in place of the variables of its expression the claim
  fails: in \<open>w = a\<close> the written variable \<open>w\<close> is not read, but it occurs in the
  expression, so the rule adds nothing; without a reported data dependency the graph
  built from \<open>a\<close> has no edge.
\<close>

theorem heuristic_taint_read_set_counterexample:
  "expression ex_assign1 = Some (AssignmentOperation ''='' (Identifier ex_w) (Identifier ex_var_a))
   \<and> ex_var_a \<in> set (get_expression_variables
                         (AssignmentOperation ''='' (Identifier ex_w) (Identifier ex_var_a)))
   \<and> ex_w \<in> set (local_variables_written ex_assign1 @ state_variables_written ex_assign1)
   \<and> ex_w \<notin> set (local_variables_read ex_assign1 @ state_variables_read ex_assign1)
   \<and> heuristic_taint (seed_graph ex_var_a ex_f, []) ex_f ex_var_a ''a@f'' [(ex_var_a, ex_f)]
        ex_assign1 = (seed_graph ex_var_a ex_f, [])
   \<and> graph_edges (build_taint_graph no_dependency ex_contract_f ex_f ex_var_a) = []"
  by code_simp

subsection \<open>Call arguments\<close>

text \<open>
  \<^verbatim>\<open>function inner(uint p) {}\<close> called as the statement \<^verbatim>\<open>inner(q);\<close> of
  \<^verbatim>\<open>outer(uint q)\<close>.
\<close>

definition ex_p :: variable where
  "ex_p = mk_var 1 ''p'' LocalVariable True"

definition ex_q :: variable where
  "ex_q = mk_var 2 ''q'' LocalVariable True"

definition ex_r :: variable where
  "ex_r = mk_var 3 ''r'' LocalVariable False"

definition ex_inner :: func where
  "ex_inner = mk_func 1 ''inner'' [ex_p] []"

definition ex_call :: node where
  "ex_call = mk_node (Some (CallExpression (FunctionIdentifier ''inner'') [Identifier ex_q]))
     [] [] [ex_q] [] [FunctionCall 1] [7]"

definition ex_outer :: func where
  "ex_outer = mk_func 2 ''outer'' [ex_q] [ex_call]"

definition ex_calls :: contract where
  "ex_calls = \<lparr>contract_name = ''Calls'', contract_functions = [ex_inner, ex_outer]\<rparr>"

text \<open>
  Calls nested in a larger expression. \<open>ex_returning\<close> is
  \<^verbatim>\<open>function inner(uint p) returns (uint) { return p; }\<close>. In \<open>ex_calls_assigned\<close> it
  is called by \<^verbatim>\<open>function outer(uint q) { uint r = inner(q); }\<close>, and in
  \<open>ex_calls_nested\<close> by \<^verbatim>\<open>function outer(uint q, uint z) { other(z, inner(q)); }\<close>,
  where \<open>other\<close> is a function of two parameters.
\<close>

definition ex_z :: variable where
  "ex_z = mk_var 4 ''z'' LocalVariable True"

definition ex_returning :: func where
  "ex_returning = mk_func 1 ''inner'' [ex_p]
     [mk_node (Some (Identifier ex_p)) [] [] [ex_p] [] [] [2]]"

definition ex_call_assigned :: node where
  "ex_call_assigned = mk_node
     (Some (AssignmentOperation ''='' (Identifier ex_r)
              (CallExpression (FunctionIdentifier ''inner'') [Identifier ex_q])))
     [ex_r] [] [ex_q] [] [FunctionCall 1] [7]"

definition ex_outer_assigned :: func where
  "ex_outer_assigned = mk_func 2 ''outer'' [ex_q] [ex_call_assigned]"

definition ex_calls_assigned :: contract where
  "ex_calls_assigned =
     \<lparr>contract_name = ''Calls'', contract_functions = [ex_returning, ex_outer_assigned]\<rparr>"

definition ex_other :: func where
  "ex_other = mk_func 3 ''other''
     [mk_var 5 ''x'' LocalVariable True, mk_var 6 ''y'' LocalVariable True] []"

definition ex_call_nested :: node where
  "ex_call_nested = mk_node
     (Some (CallExpression (FunctionIdentifier ''other'')
              [Identifier ex_z, CallExpression (FunctionIdentifier ''inner'') [Identifier ex_q]]))
     [] [] [ex_z, ex_q] [] [FunctionCall 3, FunctionCall 1] [7]"

definition ex_outer_nested :: func where
  "ex_outer_nested = mk_func 2 ''outer'' [ex_q, ex_z] [ex_call_nested]"

definition ex_calls_nested :: contract where
  "ex_calls_nested =
     \<lparr>contract_name = ''Calls'',
      contract_functions = [ex_returning, ex_other, ex_outer_nested]\<rparr>"

text \<open>
  C8. The claim that every call site passing an argument at the parameter's position
  gives the variables of that argument a node and an edge to the parameter fails in the
  code, which reads the argument list from the expression of the whole statement, not
  from the call. In \<^verbatim>\<open>r = inner(q)\<close> the statement is an assignment without an
  argument list: the graph built from \<open>p\<close> holds the seed alone, no node for \<open>q\<close> and no
  edge. In \<^verbatim>\<open>other(z, inner(q))\<close> the argument list is that of the call to \<open>other\<close>:
  the graph receives the edge from \<open>z@outer\<close> to \<open>p@inner\<close>, although \<open>z\<close> is passed to
  \<open>other\<close>, and still no node for \<open>q\<close>, the variable that is passed to \<open>inner\<close>.
\<close>

theorem parameter_taint_reads_statement_arguments:
  "ex_p \<in> set (parameters ex_returning)
   \<and> FunctionCall (func_id ex_returning) \<in> set (internal_calls ex_call_assigned)
   \<and> expression ex_call_assigned
        = Some (AssignmentOperation ''='' (Identifier ex_r)
                  (CallExpression (FunctionIdentifier ''inner'') [Identifier ex_q]))
   \<and> map fst (graph_nodes (build_taint_graph no_dependency ex_calls_assigned ex_returning ex_p))
        = [''p@inner'']
   \<and> graph_edges (build_taint_graph no_dependency ex_calls_assigned ex_returning ex_p) = []
   \<and> FunctionCall (func_id ex_returning) \<in> set (internal_calls ex_call_nested)
   \<and> expression ex_call_nested
        = Some (CallExpression (FunctionIdentifier ''other'')
                  [Identifier ex_z,
                   CallExpression (FunctionIdentifier ''inner'') [Identifier ex_q]])
   \<and> map fst (graph_nodes (build_taint_graph no_dependency ex_calls_nested ex_returning ex_p))
        = [''p@inner'', ''z@outer'']
   \<and> map fst (graph_edges (build_taint_graph no_dependency ex_calls_nested ex_returning ex_p))
        = [(''z@outer'', ''p@inner'')]"
  by code_simp

theorem parameter_taint_reads_statement_arguments_witness:
  "\<not> has_node (build_taint_graph no_dependency ex_calls_assigned ex_returning ex_p) ''q@outer''
   \<and> \<not> has_node (build_taint_graph no_dependency ex_calls_nested ex_returning ex_p) ''q@outer''"
  using parameter_taint_reads_statement_arguments by (simp add: has_node_def)

section \<open>The reachability query (analyzers/taint.py)\<close>

text \<open>
  Exceptions as values: the two networkx exceptions \<^verbatim>\<open>shortest_path\<close> can raise, the
  \<^verbatim>\<open>ValueError\<close> of \<^verbatim>\<open>analyze\<close>, and the \<^verbatim>\<open>AttributeError\<close> of reading the attributes
  of an edge that does not exist.
\<close>

datatype exception = NodeNotFound | NetworkXNoPath | ValueError string | AttributeError

text \<open>
  \<^verbatim>\<open>networkx.shortest_path(G, source, target)\<close> for an unweighted graph: it raises
  \<^verbatim>\<open>NodeNotFound\<close> when the source or the target is not a node of the graph, raises
  \<^verbatim>\<open>NetworkXNoPath\<close> when the target cannot be reached, and otherwise returns a path
  with the fewest edges. The model searches breadth first from the source, one level at
  a time, over the successors that are nodes of the graph; which of several shortest
  paths networkx returns is not part of the model.
\<close>

fun expand :: "digraph \<Rightarrow> string list \<Rightarrow> string list list \<Rightarrow> string list list" where
  "expand G visited [] = []"
| "expand G visited (p # ps) =
     (let new = filter (\<lambda>s. s \<notin> set visited \<and> has_node G s) (remdups (successors G (hd p)))
      in map (\<lambda>s. s # p) new @ expand G (visited @ new) ps)"

lemma expand_heads:
  "q \<in> set (expand G visited ps) \<Longrightarrow> q \<noteq> [] \<and> hd q \<notin> set visited \<and> has_node G (hd q)"
proof (induction ps arbitrary: visited)
  case Nil
  then show ?case by simp
next
  case (Cons p ps)
  define new where
    "new = filter (\<lambda>s. s \<notin> set visited \<and> has_node G s) (remdups (successors G (hd p)))"
  from Cons.prems have "q \<in> set (map (\<lambda>s. s # p) new) \<or> q \<in> set (expand G (visited @ new) ps)"
    by (simp add: Let_def new_def)
  then show ?case
  proof
    assume "q \<in> set (map (\<lambda>s. s # p) new)"
    then show ?thesis by (auto simp: new_def)
  next
    assume "q \<in> set (expand G (visited @ new) ps)"
    from Cons.IH[OF this] show ?thesis by simp
  qed
qed

function bfs_paths :: "digraph \<Rightarrow> string \<Rightarrow> string list \<Rightarrow> string list list \<Rightarrow> string list option" where
  "bfs_paths G target visited frontier =
     (case find (\<lambda>p. hd p = target) frontier of
        Some p \<Rightarrow> Some (rev p)
      | None \<Rightarrow>
          (let level = expand G visited frontier
           in if level = [] then None
              else bfs_paths G target (visited @ map hd level) level))"
  by pat_completeness auto
termination
proof (relation "measure (\<lambda>(G, target, visited, frontier).
                   card {k \<in> set (map fst (graph_nodes G)). k \<notin> set visited})", goal_cases)
  case 1
  then show ?case by simp
next
  case (2 G target visited frontier level)
  then have "level \<noteq> []" by simp
  then have "hd level \<in> set level" by (rule hd_in_set)
  then obtain q where q: "q \<in> set level" ..
  with 2 have h: "hd q \<notin> set visited" "has_node G (hd q)"
    using expand_heads[of q G visited frontier] by auto
  let ?A = "{k \<in> set (map fst (graph_nodes G)). k \<notin> set (visited @ map hd level)}"
  let ?B = "{k \<in> set (map fst (graph_nodes G)). k \<notin> set visited}"
  have "hd q \<in> ?B" using h by (simp add: has_node_def)
  moreover have "hd q \<notin> ?A" using q by simp
  moreover have "?A \<subseteq> ?B" by auto
  ultimately have "?A \<subset> ?B" by blast
  then have "card ?A < card ?B" by (intro psubset_card_mono) simp
  then show ?case by simp
qed

definition shortest_path :: "digraph \<Rightarrow> string \<Rightarrow> string \<Rightarrow> exception + string list" where
  "shortest_path G source target =
     (if \<not> has_node G source \<or> \<not> has_node G target then Inl NodeNotFound
      else (case bfs_paths G target [source] [[source]] of
              None \<Rightarrow> Inl NetworkXNoPath
            | Some path \<Rightarrow> Inr path))"

text \<open>
  \<^verbatim>\<open>_check_sink_tainted\<close>. The source key is built with no function
  (\<^verbatim>\<open>self._node_key(source_var, None)\<close>); only \<^verbatim>\<open>NetworkXNoPath\<close> is caught.
\<close>

definition check_sink_tainted ::
  "digraph \<Rightarrow> variable \<Rightarrow> variable \<Rightarrow> func \<Rightarrow> exception + (bool \<times> string list)" where
  "check_sink_tainted taint_graph source_var sink_var sink_func =
     (let source_key = node_key source_var None;
          sink_key = node_key sink_var (Some sink_func)
      in if \<not> has_node taint_graph sink_key then Inr (False, [])
         else (case shortest_path taint_graph source_key sink_key of
                 Inr path \<Rightarrow> Inr (True, path)
               | Inl NetworkXNoPath \<Rightarrow> Inr (False, [])
               | Inl e \<Rightarrow> Inl e))"

text \<open>\<^verbatim>\<open>_get_tainted_variables\<close> and \<^verbatim>\<open>_format_taint_path\<close>.\<close>

record tainted_variable =
  tv_name :: string
  tv_function :: string
  tv_type :: string

definition get_tainted_variables :: "digraph \<Rightarrow> tainted_variable list" where
  "get_tainted_variables taint_graph =
     concat (map (\<lambda>(k, attrs). case attrs of
                     None \<Rightarrow> []
                   | Some a \<Rightarrow> [\<lparr>tv_name = var_name (attr_var a),
                                 tv_function = func_name (attr_function a),
                                 tv_type = attr_var_type a\<rparr>])
               (graph_nodes taint_graph))"

record path_step =
  step_from :: "string \<times> string"
  step_to :: "string \<times> string"
  step_expression :: string
  step_line :: "nat option"

definition node_names :: "digraph \<Rightarrow> string \<Rightarrow> string \<times> string" where
  "node_names G k =
     (case map_of (graph_nodes G) k of
        Some (Some a) \<Rightarrow> (var_name (attr_var a), func_name (attr_function a))
      | _ \<Rightarrow> (''unknown'', ''unknown''))"

fun format_taint_path :: "digraph \<Rightarrow> string list \<Rightarrow> exception + path_step list" where
  "format_taint_path G (source_node # target_node # rest) =
     (case map_of (graph_edges G) (source_node, target_node) of
        None \<Rightarrow> Inl AttributeError
      | Some edge_data \<Rightarrow>
          (case format_taint_path G (target_node # rest) of
             Inl e \<Rightarrow> Inl e
           | Inr steps \<Rightarrow>
               Inr (\<lparr>step_from = node_names G source_node, step_to = node_names G target_node,
                     step_expression = edge_expression edge_data,
                     step_line = edge_line edge_data\<rparr> # steps)))"
| "format_taint_path G _ = Inr []"

text \<open>
  \<^verbatim>\<open>analyze\<close>: name resolution, graph construction, the query, the result. \<open>quoted\<close>
  puts a name between single quotes, as the messages of the \<^verbatim>\<open>ValueError\<close>s do.
\<close>

definition quoted :: "string \<Rightarrow> string" where
  "quoted s = CHR 0x27 # s @ [CHR 0x27]"

record analysis_result =
  vulnerable :: bool
  tainted_variables :: "tainted_variable list"
  taint_path :: "path_step list"

definition analyze ::
  "(variable \<Rightarrow> variable \<Rightarrow> func \<Rightarrow> bool) \<Rightarrow> contract \<Rightarrow> string \<Rightarrow> string \<Rightarrow> string \<Rightarrow> string
     \<Rightarrow> exception + analysis_result" where
  "analyze is_dependent c source_function source_variable sink_function sink_variable =
     (case find_function_by_name c source_function of
        None \<Rightarrow> Inl (ValueError (''Source function '' @ quoted source_function @ '' not found in contract''))
      | Some source_func \<Rightarrow>
     (case find_function_by_name c sink_function of
        None \<Rightarrow> Inl (ValueError (''Sink function '' @ quoted sink_function @ '' not found in contract''))
      | Some sink_func \<Rightarrow>
     (case find_variable_by_name source_func source_variable of
        None \<Rightarrow> Inl (ValueError (''Source variable '' @ quoted source_variable @ '' not found in function ''
                                   @ quoted source_function))
      | Some source_var \<Rightarrow>
     (case find_variable_by_name sink_func sink_variable of
        None \<Rightarrow> Inl (ValueError (''Sink variable '' @ quoted sink_variable @ '' not found in function ''
                                   @ quoted sink_function))
      | Some sink_var \<Rightarrow>
          (let taint_graph = build_taint_graph is_dependent c source_func source_var in
           case check_sink_tainted taint_graph source_var sink_var sink_func of
             Inl e \<Rightarrow> Inl e
           | Inr (sink_tainted, path) \<Rightarrow>
               (if sink_tainted then
                  (case format_taint_path taint_graph path of
                     Inl e \<Rightarrow> Inl e
                   | Inr steps \<Rightarrow>
                       Inr \<lparr>vulnerable = True,
                            tainted_variables = get_tainted_variables taint_graph,
                            taint_path = steps\<rparr>)
                else Inr \<lparr>vulnerable = False,
                          tainted_variables = get_tainted_variables taint_graph,
                          taint_path = []\<rparr>))))))"

lemma check_sink_tainted_sink_absent:
  "\<not> has_node G (node_key sink_var (Some sink_func))
     \<Longrightarrow> check_sink_tainted G source_var sink_var sink_func = Inr (False, [])"
  by (simp add: check_sink_tainted_def)

lemma check_sink_tainted_source_absent:
  "has_node G (node_key sink_var (Some sink_func)) \<Longrightarrow> \<not> has_node G (node_key source_var None)
     \<Longrightarrow> check_sink_tainted G source_var sink_var sink_func = Inl NodeNotFound"
  by (simp add: check_sink_tainted_def shortest_path_def)

text \<open>
  C1. Query: source \<open>p\<close> of \<open>inner\<close>, sink \<open>q\<close> of \<open>outer\<close>, in the contract where
  \<open>outer\<close> calls \<open>inner(q)\<close>. The built graph has the nodes \<open>p@inner\<close> and \<open>q@outer\<close>
  and the single edge from \<open>q@outer\<close> to \<open>p@inner\<close>, so the sink is a node of the graph
  and is not reachable from the seed node. The check looks the source up under the key
  \<open>p@global\<close>, which is not a node, and \<^verbatim>\<open>shortest_path\<close> raises \<^verbatim>\<open>NodeNotFound\<close>;
  the exception is not caught and leaves \<^verbatim>\<open>analyze\<close>.
\<close>

theorem check_sink_tainted_raises_node_not_found:
  "map fst (graph_nodes (build_taint_graph no_dependency ex_calls ex_inner ex_p))
     = [''p@inner'', ''q@outer'']
   \<and> map fst (graph_edges (build_taint_graph no_dependency ex_calls ex_inner ex_p))
     = [(''q@outer'', ''p@inner'')]
   \<and> shortest_path (build_taint_graph no_dependency ex_calls ex_inner ex_p) ''p@inner'' ''q@outer''
     = Inl NetworkXNoPath
   \<and> node_key ex_p None = ''p@global''
   \<and> check_sink_tainted (build_taint_graph no_dependency ex_calls ex_inner ex_p) ex_p ex_q ex_outer
     = Inl NodeNotFound
   \<and> analyze no_dependency ex_calls ''inner'' ''p'' ''outer'' ''q'' = Inl NodeNotFound"
  by code_simp

theorem check_sink_tainted_raises_node_not_found_witness:
  "check_sink_tainted (build_taint_graph no_dependency ex_calls ex_inner ex_p) ex_p ex_q ex_outer
     \<noteq> Inr (False, [])"
  using check_sink_tainted_raises_node_not_found by simp

section \<open>The direct-dependency extractor (\<^verbatim>\<open>taint_analysis.py\<close>)\<close>

text \<open>
  The variables of Slither's intermediate representation, by class. \<open>Constant\<close> is a
  literal. The SSA classes (\<open>LocalIRVariable\<close>, \<open>StateIRVariable\<close>,
  \<open>TemporaryVariableSSA\<close>, \<open>ReferenceVariableSSA\<close>) carry their non-SSA version, a
  \<open>base_variable\<close>, and an SSA index; a local SSA variable has the flag
  \<^verbatim>\<open>is_storage\<close>, a reference has \<^verbatim>\<open>points_to\<close>. \<open>Plain\<close> is a variable object
  without the attribute \<^verbatim>\<open>non_ssa_version\<close>: a declared variable, a non-SSA temporary
  or reference, a Solidity variable.
\<close>

datatype base_variable = BaseVariable nat string

datatype ir_variable =
    Constant string
  | Plain base_variable
  | LocalIRVariable base_variable nat bool
  | StateIRVariable base_variable nat
  | TemporaryVariableSSA base_variable nat
  | ReferenceVariableSSA base_variable nat "ir_variable option"

text \<open>
  \<^verbatim>\<open>non_ssa\<close>: the attribute \<^verbatim>\<open>non_ssa_version\<close> where the object has one, the object
  itself otherwise. \<open>is_storage\<close> and \<open>points_to\<close> are
  \<^verbatim>\<open>hasattr(v, "is_storage") and v.is_storage\<close> and the attribute \<^verbatim>\<open>points_to\<close> where
  the object has one. \<open>is_Constant\<close> is \<^verbatim>\<open>isinstance(r, Constant)\<close>.
\<close>

fun non_ssa :: "ir_variable \<Rightarrow> ir_variable" where
  "non_ssa (LocalIRVariable b i s) = Plain b"
| "non_ssa (StateIRVariable b i) = Plain b"
| "non_ssa (TemporaryVariableSSA b i) = Plain b"
| "non_ssa (ReferenceVariableSSA b i pts) = Plain b"
| "non_ssa v = v"

fun is_storage :: "ir_variable \<Rightarrow> bool" where
  "is_storage (LocalIRVariable b i s) = s"
| "is_storage _ = False"

fun points_to :: "ir_variable \<Rightarrow> ir_variable option" where
  "points_to (ReferenceVariableSSA b i pts) = pts"
| "points_to _ = None"

fun is_Constant :: "ir_variable \<Rightarrow> bool" where
  "is_Constant (Constant c) = True"
| "is_Constant _ = False"

text \<open>
  The operations, as far as \<^verbatim>\<open>compute_direct_dependencies\<close> tells them apart: an
  \<open>Index\<close> with its left variable, an \<open>InternalCall\<close> with the SSA return values of the
  called function (\<open>None\<close> when \<^verbatim>\<open>ir.function\<close> is not set), any other
  \<^verbatim>\<open>OperationWithLValue\<close>, and the operations without a left value. The last argument
  is \<^verbatim>\<open>ir.read\<close>. \<open>reads\<close> is the list the source calls \<^verbatim>\<open>reads\<close>.
\<close>

datatype operation =
    Index "ir_variable option" ir_variable "ir_variable list"
  | InternalCall "ir_variable option" "ir_variable list option" "ir_variable list"
  | OtherWithLValue "ir_variable option" "ir_variable list"
  | WithoutLValue "ir_variable list"

fun lvalue :: "operation \<Rightarrow> ir_variable option" where
  "lvalue (Index lv variable_left rd) = lv"
| "lvalue (InternalCall lv rets rd) = lv"
| "lvalue (OtherWithLValue lv rd) = lv"
| "lvalue (WithoutLValue rd) = None"

fun reads :: "operation \<Rightarrow> ir_variable list" where
  "reads (Index lv variable_left rd) = [variable_left]"
| "reads (InternalCall lv (Some return_values_ssa) rd) = return_values_ssa"
| "reads (InternalCall lv None rd) = rd"
| "reads (OtherWithLValue lv rd) = rd"
| "reads (WithoutLValue rd) = rd"

record ir_node =
  irs_ssa :: "operation list"

record ir_function =
  ir_function_name :: string
  ir_nodes :: "ir_node list"

record ir_contract =
  ir_contract_name :: string
  ir_functions :: "ir_function list"
  ir_modifiers :: "ir_function list"

text \<open>
  The map is a \<^verbatim>\<open>defaultdict(set)\<close>; the model keeps keys and set elements in
  insertion order. \<^verbatim>\<open>direct_dep[lval].add(r)\<close> creates the key on first use.
\<close>

type_synonym direct_dep_map = "(ir_variable \<times> ir_variable list) list"

definition add_dependency :: "direct_dep_map \<Rightarrow> ir_variable \<Rightarrow> ir_variable \<Rightarrow> direct_dep_map" where
  "add_dependency direct_dep lval r =
     (case map_of direct_dep lval of
        None \<Rightarrow> direct_dep @ [(lval, [r])]
      | Some deps \<Rightarrow> AList.update lval (if r \<in> set deps then deps else deps @ [r]) direct_dep)"

text \<open>
  The body of the innermost loop for one operation: the lvalue test, the storage
  filter, the target (through \<^verbatim>\<open>points_to\<close>, then non-SSA), and one entry per read
  variable that is not a constant.
\<close>

definition effective_lvalue :: "ir_variable \<Rightarrow> ir_variable" where
  "effective_lvalue lv = non_ssa (case points_to lv of Some pts \<Rightarrow> pts | None \<Rightarrow> lv)"

definition process_ir :: "operation \<Rightarrow> direct_dep_map \<Rightarrow> direct_dep_map" where
  "process_ir ir direct_dep =
     (case lvalue ir of
        None \<Rightarrow> direct_dep
      | Some lv \<Rightarrow>
          if is_storage lv then direct_dep
          else (let lval = effective_lvalue lv
                in fold (\<lambda>r direct_dep.
                           if is_Constant r then direct_dep
                           else add_dependency direct_dep lval (non_ssa r))
                     (reads ir) direct_dep))"

text \<open>
  \<^verbatim>\<open>compute_direct_dependencies\<close>: the first contract of that name, or
  \<^verbatim>\<open>sys.exit(-1)\<close>; then all functions and modifiers, their nodes, the SSA operations
  of each node.
\<close>

datatype exit = SystemExit int

definition compute_direct_dependencies ::
  "ir_contract list \<Rightarrow> string \<Rightarrow> exit + direct_dep_map" where
  "compute_direct_dependencies contracts target_contract_name =
     (case find (\<lambda>c. ir_contract_name c = target_contract_name) contracts of
        None \<Rightarrow> Inl (SystemExit (-1))
      | Some target_contract \<Rightarrow>
          Inr (fold (\<lambda>function direct_dep.
                 fold (\<lambda>n direct_dep. fold process_ir (irs_ssa n) direct_dep)
                   (ir_nodes function) direct_dep)
               (ir_functions target_contract @ ir_modifiers target_contract) []))"

subsection \<open>The edges of a dependency map\<close>

definition dep_edges :: "direct_dep_map \<Rightarrow> (ir_variable \<times> ir_variable) set" where
  "dep_edges direct_dep = {(t, d). \<exists>deps. map_of direct_dep t = Some deps \<and> d \<in> set deps}"

definition ir_edges :: "operation \<Rightarrow> (ir_variable \<times> ir_variable) set" where
  "ir_edges ir =
     (case lvalue ir of
        None \<Rightarrow> {}
      | Some lv \<Rightarrow>
          if is_storage lv then {}
          else {(effective_lvalue lv, non_ssa r) | r. r \<in> set (reads ir) \<and> \<not> is_Constant r})"

lemma dep_edges_add_dependency:
  "dep_edges (add_dependency dd lval r) = insert (lval, r) (dep_edges dd)"
proof (cases "map_of dd lval")
  case None
  then have "map_of (add_dependency dd lval r) = (map_of dd)(lval \<mapsto> [r])"
    by (auto simp: add_dependency_def map_add_def fun_eq_iff split: option.splits)
  then show ?thesis using None by (auto simp: dep_edges_def split: if_splits)
next
  case (Some deps)
  then have "map_of (add_dependency dd lval r)
      = (map_of dd)(lval \<mapsto> (if r \<in> set deps then deps else deps @ [r]))"
    by (simp add: add_dependency_def AList.update_conv')
  then show ?thesis using Some by (auto simp: dep_edges_def split: if_splits)
qed

lemma dep_edges_fold_reads:
  "dep_edges (fold (\<lambda>r direct_dep. if is_Constant r then direct_dep
                           else add_dependency direct_dep lval (non_ssa r)) rs dd)
     = dep_edges dd \<union> {(lval, non_ssa r) | r. r \<in> set rs \<and> \<not> is_Constant r}"
  by (induction rs arbitrary: dd) (auto simp: dep_edges_add_dependency)

lemma dep_edges_process_ir: "dep_edges (process_ir ir dd) = dep_edges dd \<union> ir_edges ir"
  by (auto simp: process_ir_def ir_edges_def Let_def dep_edges_fold_reads split: option.splits)

lemma dep_edges_fold_process_ir:
  "dep_edges (fold process_ir irs dd) = dep_edges dd \<union> (\<Union>ir\<in>set irs. ir_edges ir)"
  by (induction irs arbitrary: dd) (auto simp: dep_edges_process_ir)

definition contract_irs :: "ir_contract \<Rightarrow> operation list" where
  "contract_irs c = concat (map irs_ssa (concat (map ir_nodes (ir_functions c @ ir_modifiers c))))"

lemma fold_nodes:
  "fold (\<lambda>n. fold process_ir (irs_ssa n)) ns dd = fold process_ir (concat (map irs_ssa ns)) dd"
  by (induction ns arbitrary: dd) auto

lemma fold_functions:
  "fold (\<lambda>function. fold process_ir (concat (map irs_ssa (ir_nodes function)))) fs dd
     = fold process_ir (concat (map irs_ssa (concat (map ir_nodes fs)))) dd"
  by (induction fs arbitrary: dd) auto

lemma fold_nested_concat:
  "fold (\<lambda>function direct_dep.
                 fold (\<lambda>n direct_dep. fold process_ir (irs_ssa n) direct_dep)
                   (ir_nodes function) direct_dep) fs dd
    = fold process_ir (concat (map irs_ssa (concat (map ir_nodes fs)))) dd"
proof -
  have "(\<lambda>function direct_dep.
                 fold (\<lambda>n direct_dep. fold process_ir (irs_ssa n) direct_dep)
                   (ir_nodes function) direct_dep)
      = (\<lambda>function. fold process_ir (concat (map irs_ssa (ir_nodes function))))"
    by (intro ext) (rule fold_nodes)
  then have "fold (\<lambda>function direct_dep.
                 fold (\<lambda>n direct_dep. fold process_ir (irs_ssa n) direct_dep)
                   (ir_nodes function) direct_dep) fs dd
      = fold (\<lambda>function. fold process_ir (concat (map irs_ssa (ir_nodes function)))) fs dd"
    by (rule arg_cong[where f="\<lambda>g. fold g fs dd"])
  also have "\<dots> = fold process_ir (concat (map irs_ssa (concat (map ir_nodes fs)))) dd"
    by (rule fold_functions)
  finally show ?thesis .
qed

lemma dep_edges_empty [simp]: "dep_edges [] = {}"
  by (simp add: dep_edges_def)

lemma compute_direct_dependencies_edges:
  assumes "compute_direct_dependencies contracts name = Inr dd"
  shows "\<exists>c. find (\<lambda>c. ir_contract_name c = name) contracts = Some c
           \<and> dep_edges dd = (\<Union>ir\<in>set (contract_irs c). ir_edges ir)"
proof (cases "find (\<lambda>c. ir_contract_name c = name) contracts")
  case None
  with assms show ?thesis by (simp add: compute_direct_dependencies_def)
next
  case (Some c)
  with assms have "dd = fold process_ir (contract_irs c) []"
    unfolding compute_direct_dependencies_def contract_irs_def
    by (simp only: option.case fold_nested_concat sum.inject)
  then have "dep_edges dd = (\<Union>ir\<in>set (contract_irs c). ir_edges ir)"
    by (simp add: dep_edges_fold_process_ir)
  with Some show ?thesis by simp
qed

lemma ir_edges_no_constant: "(t, d) \<in> ir_edges ir \<Longrightarrow> \<not> is_Constant d"
proof -
  have "\<not> is_Constant r \<Longrightarrow> \<not> is_Constant (non_ssa r)" for r
    by (cases r) auto
  then show "(t, d) \<in> ir_edges ir \<Longrightarrow> \<not> is_Constant d"
    by (auto simp: ir_edges_def split: option.splits if_splits)
qed

subsection \<open>Adding a statement\<close>

text \<open>
  The unit extended by one statement: node \<open>n\<close> inserted at position \<open>k\<close> of the
  statement list of function \<open>j\<close> of contract \<open>i\<close>; everything else is unchanged.
\<close>

definition add_statement :: "ir_function \<Rightarrow> nat \<Rightarrow> ir_node \<Rightarrow> ir_function" where
  "add_statement f k n = f\<lparr>ir_nodes := take k (ir_nodes f) @ n # drop k (ir_nodes f)\<rparr>"

definition extend_unit :: "ir_contract list \<Rightarrow> nat \<Rightarrow> nat \<Rightarrow> nat \<Rightarrow> ir_node \<Rightarrow> ir_contract list" where
  "extend_unit contracts i j k n =
     contracts[i := (contracts ! i)\<lparr>ir_functions :=
        (ir_functions (contracts ! i))[j := add_statement (ir_functions (contracts ! i) ! j) k n]\<rparr>]"

lemma find_list_update:
  assumes "i < length xs" and "P y = P (xs ! i)" and "find P xs = Some x"
  shows "find P (xs[i := y]) = Some x \<or> (find P (xs[i := y]) = Some y \<and> x = xs ! i)"
  using assms
proof (induction xs arbitrary: i)
  case Nil
  then show ?case by simp
next
  case (Cons a xs)
  show ?case
  proof (cases i)
    case 0
    with Cons.prems show ?thesis by (auto split: if_splits)
  next
    case (Suc m)
    show ?thesis
    proof (cases "P a")
      case True
      with Cons.prems Suc show ?thesis by simp
    next
      case False
      with Cons.prems Suc have "find P xs = Some x" "m < length xs" "P y = P (xs ! m)" by simp_all
      from Cons.IH[OF this(2,3,1)] False Suc show ?thesis by simp
    qed
  qed
qed

lemma nodes_add_statement: "set (ir_nodes f) \<subseteq> set (ir_nodes (add_statement f k n))"
proof -
  have "set (take k (ir_nodes f)) \<union> set (drop k (ir_nodes f)) = set (ir_nodes f)"
    by (metis append_take_drop_id set_append)
  then show ?thesis by (auto simp: add_statement_def)
qed

lemma irs_functions_update:
  "set (concat (map irs_ssa (concat (map ir_nodes fs))))
     \<subseteq> set (concat (map irs_ssa (concat (map ir_nodes (fs[j := add_statement (fs ! j) k n])))))"
proof
  fix ir
  assume "ir \<in> set (concat (map irs_ssa (concat (map ir_nodes fs))))"
  then obtain f nd where f: "f \<in> set fs" and nd: "nd \<in> set (ir_nodes f)" and ir: "ir \<in> set (irs_ssa nd)"
    by auto
  from f obtain m where m: "m < length fs" "fs ! m = f" by (auto simp: in_set_conv_nth)
  define fs' where "fs' = fs[j := add_statement (fs ! j) k n]"
  have "\<exists>f'\<in>set fs'. nd \<in> set (ir_nodes f')"
  proof (cases "m = j")
    case True
    then have "fs' ! m = add_statement f k n" using m by (simp add: fs'_def)
    moreover have "fs' ! m \<in> set fs'" using m by (simp add: fs'_def)
    moreover have "nd \<in> set (ir_nodes (add_statement f k n))"
      using nd nodes_add_statement[of f k n] by blast
    ultimately show ?thesis by metis
  next
    case False
    then have "fs' ! m = f" using m by (simp add: fs'_def)
    moreover have "fs' ! m \<in> set fs'" using m by (simp add: fs'_def)
    ultimately show ?thesis using nd by metis
  qed
  then show "ir \<in> set (concat (map irs_ssa (concat (map ir_nodes fs'))))"
    using ir by auto
qed

lemma contract_irs_extended:
  "set (contract_irs c)
     \<subseteq> set (contract_irs (c\<lparr>ir_functions := (ir_functions c)[j := add_statement (ir_functions c ! j) k n]\<rparr>))"
  using irs_functions_update[of "ir_functions c" j k n]
  by (auto simp: contract_irs_def)

subsection \<open>Example unit\<close>

text \<open>
  \<^verbatim>\<open>function f() { x = 5; y = x + 1; }\<close> in SSA form, and the further statement
  \<^verbatim>\<open>z = y;\<close>.
\<close>

definition ir_x :: base_variable where "ir_x = BaseVariable 1 ''x''"
definition ir_y :: base_variable where "ir_y = BaseVariable 2 ''y''"
definition ir_tmp :: base_variable where "ir_tmp = BaseVariable 3 ''TMP_0''"
definition ir_z :: base_variable where "ir_z = BaseVariable 4 ''z''"

definition ir_set_x :: ir_node where
  "ir_set_x = \<lparr>irs_ssa = [OtherWithLValue (Some (LocalIRVariable ir_x 1 False)) [Constant ''5'']]\<rparr>"

definition ir_set_y :: ir_node where
  "ir_set_y = \<lparr>irs_ssa =
     [OtherWithLValue (Some (TemporaryVariableSSA ir_tmp 0))
        [LocalIRVariable ir_x 1 False, Constant ''1''],
      OtherWithLValue (Some (LocalIRVariable ir_y 1 False)) [TemporaryVariableSSA ir_tmp 0]]\<rparr>"

definition ir_set_z :: ir_node where
  "ir_set_z = \<lparr>irs_ssa =
     [OtherWithLValue (Some (LocalIRVariable ir_z 1 False)) [LocalIRVariable ir_y 1 False]]\<rparr>"

definition ir_unit :: "ir_contract list" where
  "ir_unit = [\<lparr>ir_contract_name = ''C'',
               ir_functions = [\<lparr>ir_function_name = ''f'', ir_nodes = [ir_set_x, ir_set_y]\<rparr>],
               ir_modifiers = []\<rparr>]"


lemma ir_unit_deps:
  "compute_direct_dependencies ir_unit ''C''
     = Inr [(Plain ir_tmp, [Plain ir_x]), (Plain ir_y, [Plain ir_tmp])]"
  by code_simp

lemma ir_unit_extended_deps:
  "compute_direct_dependencies (extend_unit ir_unit 0 0 2 ir_set_z) ''C''
     = Inr [(Plain ir_tmp, [Plain ir_x]), (Plain ir_y, [Plain ir_tmp]), (Plain ir_z, [Plain ir_y])]"
  by code_simp

text \<open>
  C6. The map computed for a unit never contains a dependency on a constant, and an
  operation all of whose read operands are constants leaves the map as it is.
\<close>

theorem direct_dependencies_no_constant:
  "(compute_direct_dependencies contracts name = Inr direct_dep
      \<longrightarrow> (\<forall>t deps d. map_of direct_dep t = Some deps \<longrightarrow> d \<in> set deps \<longrightarrow> \<not> is_Constant d))
   \<and> ((\<forall>r \<in> set (reads ir). is_Constant r) \<longrightarrow> process_ir ir dd = dd)"
proof (intro conjI impI allI)
  fix t deps d
  assume c: "compute_direct_dependencies contracts name = Inr direct_dep"
    and m: "map_of direct_dep t = Some deps" and d: "d \<in> set deps"
  from compute_direct_dependencies_edges[OF c] obtain c' where
    e: "dep_edges direct_dep = (\<Union>ir\<in>set (contract_irs c'). ir_edges ir)" by blast
  have "(t, d) \<in> dep_edges direct_dep" using m d by (auto simp: dep_edges_def)
  with e obtain ir where "(t, d) \<in> ir_edges ir" by blast
  then show "\<not> is_Constant d" by (rule ir_edges_no_constant)
next
  assume a: "\<forall>r \<in> set (reads ir). is_Constant r"
  have "fold (\<lambda>r direct_dep. if is_Constant r then direct_dep
                           else add_dependency direct_dep lval (non_ssa r)) rs dd = dd"
    if "\<forall>r \<in> set rs. is_Constant r" for rs lval
    using that by (induction rs) auto
  with a show "process_ir ir dd = dd"
    by (simp add: process_ir_def Let_def split: option.splits)
qed

theorem direct_dependencies_no_constant_witness:
  "compute_direct_dependencies ir_unit ''C''
     = Inr [(Plain ir_tmp, [Plain ir_x]), (Plain ir_y, [Plain ir_tmp])]
   \<and> \<not> is_Constant (Plain ir_x)
   \<and> process_ir (OtherWithLValue (Some (LocalIRVariable ir_x 1 False)) [Constant ''5'']) [] = []"
proof -
  have m: "map_of [(Plain ir_tmp, [Plain ir_x]), (Plain ir_y, [Plain ir_tmp])] (Plain ir_tmp)
             = Some [Plain ir_x]" by simp
  have r: "\<forall>r \<in> set (reads (OtherWithLValue (Some (LocalIRVariable ir_x 1 False)) [Constant ''5''])).
             is_Constant r" by simp
  from direct_dependencies_no_constant[of ir_unit "''C''"
      "[(Plain ir_tmp, [Plain ir_x]), (Plain ir_y, [Plain ir_tmp])]"
      "OtherWithLValue (Some (LocalIRVariable ir_x 1 False)) [Constant ''5'']" "[]"]
    ir_unit_deps m r
  show ?thesis by simp
qed

text \<open>
  C9. Extending the statement list of a function by one statement never removes an
  edge: when the map is computed for the unit, it is also computed for the extended
  unit, and every (target, dependency) pair of the first is a pair of the second.
\<close>

theorem direct_dependencies_monotone:
  assumes "compute_direct_dependencies contracts name = Inr direct_dep"
  shows "\<exists>direct_dep'. compute_direct_dependencies (extend_unit contracts i j k n) name = Inr direct_dep'
           \<and> dep_edges direct_dep \<subseteq> dep_edges direct_dep'"
proof (cases "i < length contracts")
  case False
  then have "extend_unit contracts i j k n = contracts"
    by (simp add: extend_unit_def list_update_beyond)
  with assms show ?thesis by auto
next
  case True
  let ?P = "\<lambda>c. ir_contract_name c = name"
  define c' where "c' = (contracts ! i)\<lparr>ir_functions :=
        (ir_functions (contracts ! i))[j := add_statement (ir_functions (contracts ! i) ! j) k n]\<rparr>"
  have ext: "extend_unit contracts i j k n = contracts[i := c']"
    by (simp add: extend_unit_def c'_def)
  from compute_direct_dependencies_edges[OF assms] obtain c where
    c: "find ?P contracts = Some c" and e: "dep_edges direct_dep = (\<Union>ir\<in>set (contract_irs c). ir_edges ir)"
    by blast
  have "?P c' = ?P (contracts ! i)" by (simp add: c'_def)
  from find_list_update[OF True this c]
  have "\<exists>d. find ?P (contracts[i := c']) = Some d \<and> set (contract_irs c) \<subseteq> set (contract_irs d)"
  proof
    assume "find ?P (contracts[i := c']) = Some c"
    then show ?thesis by auto
  next
    assume "find ?P (contracts[i := c']) = Some c' \<and> c = contracts ! i"
    then show ?thesis using contract_irs_extended[of c j k n] by (auto simp: c'_def)
  qed
  then obtain d where d: "find ?P (contracts[i := c']) = Some d"
    and sub: "set (contract_irs c) \<subseteq> set (contract_irs d)" by blast
  from d obtain dd' where dd': "compute_direct_dependencies (contracts[i := c']) name = Inr dd'"
    by (simp add: compute_direct_dependencies_def)
  from compute_direct_dependencies_edges[OF dd'] d
  have "dep_edges dd' = (\<Union>ir\<in>set (contract_irs d). ir_edges ir)" by simp
  with e sub have "dep_edges direct_dep \<subseteq> dep_edges dd'" by blast
  with dd' ext show ?thesis by auto
qed

theorem direct_dependencies_monotone_witness:
  "compute_direct_dependencies ir_unit ''C''
     = Inr [(Plain ir_tmp, [Plain ir_x]), (Plain ir_y, [Plain ir_tmp])]
   \<and> compute_direct_dependencies (extend_unit ir_unit 0 0 2 ir_set_z) ''C''
     = Inr [(Plain ir_tmp, [Plain ir_x]), (Plain ir_y, [Plain ir_tmp]), (Plain ir_z, [Plain ir_y])]
   \<and> dep_edges [(Plain ir_tmp, [Plain ir_x]), (Plain ir_y, [Plain ir_tmp])]
       \<subseteq> dep_edges [(Plain ir_tmp, [Plain ir_x]), (Plain ir_y, [Plain ir_tmp]),
                      (Plain ir_z, [Plain ir_y])]"
proof -
  from direct_dependencies_monotone[OF ir_unit_deps, of 0 0 2 ir_set_z]
  obtain dd' where "compute_direct_dependencies (extend_unit ir_unit 0 0 2 ir_set_z) ''C'' = Inr dd'"
    and "dep_edges [(Plain ir_tmp, [Plain ir_x]), (Plain ir_y, [Plain ir_tmp])] \<subseteq> dep_edges dd'"
    by blast
  then show ?thesis using ir_unit_deps ir_unit_extended_deps by simp
qed

section \<open>Reverse path search (\<^verbatim>\<open>taint_analysis.py\<close>)\<close>

text \<open>
  The search stops because a recursive call adds to \<open>visited\<close> a variable that occurs
  among the dependencies of the map and was not visited before.
\<close>

definition dep_vars :: "direct_dep_map \<Rightarrow> ir_variable set" where
  "dep_vars direct_dep = (\<Union>(t, deps)\<in>set direct_dep. set deps)"

lemma finite_dep_vars: "finite (dep_vars dd)"
  by (auto simp: dep_vars_def)

lemma map_of_dep_vars: "map_of dd t = Some deps \<Longrightarrow> d \<in> set deps \<Longrightarrow> d \<in> dep_vars dd"
  by (auto simp: dep_vars_def dest: map_of_SomeD)

text \<open>
  The inner function \<^verbatim>\<open>dfs(current, visited)\<close> of \<^verbatim>\<open>find_dependency_paths\<close>, with the
  map and the input set it closes over as arguments. \<open>visited\<close> and \<open>input_set\<close> are
  Python sets, used for membership only; \<^verbatim>\<open>visited | {precursor}\<close> is the list with
  \<open>precursor\<close> in front. The paths come out in the order in which the model lists the
  dependencies of a variable.
\<close>

function dfs ::
  "direct_dep_map \<Rightarrow> ir_variable list \<Rightarrow> ir_variable \<Rightarrow> ir_variable list \<Rightarrow> ir_variable list list" where
  "dfs direct_dep input_set current visited =
     (if current \<in> set input_set then [[current]]
      else (case map_of direct_dep current of
              None \<Rightarrow> []
            | Some deps \<Rightarrow>
                concat (map (\<lambda>precursor.
                               if precursor \<in> set visited then []
                               else map (\<lambda>sp. sp @ [current])
                                      (dfs direct_dep input_set precursor (precursor # visited)))
                          deps)))"
  by pat_completeness auto
termination
proof (relation "measure (\<lambda>(dd, I, current, visited). card (dep_vars dd - set visited))", goal_cases)
  case 1
  then show ?case by simp
next
  case (2 dd I current visited deps precursor)
  then have "precursor \<in> dep_vars dd" by (auto intro: map_of_dep_vars)
  with 2 have "dep_vars dd - set (precursor # visited) \<subset> dep_vars dd - set visited"
    by auto
  then have "card (dep_vars dd - set (precursor # visited)) < card (dep_vars dd - set visited)"
    by (intro psubset_card_mono finite_Diff finite_dep_vars)
  then show ?case by simp
qed

definition find_dependency_paths ::
  "ir_variable \<Rightarrow> direct_dep_map \<Rightarrow> ir_variable list \<Rightarrow> ir_variable list list" where
  "find_dependency_paths target direct_dep input_set = dfs direct_dep input_set target [target]"

text \<open>
  What a path from an input to a target is: a non-empty list of distinct variables that
  ends in the target, starts with a variable of the input set, has no other variable of
  the input set, and in which every variable is recorded as a dependency of the next.
\<close>

definition depends_on :: "direct_dep_map \<Rightarrow> ir_variable \<Rightarrow> ir_variable \<Rightarrow> bool" where
  "depends_on dd y x = (case map_of dd y of None \<Rightarrow> False | Some deps \<Rightarrow> x \<in> set deps)"

fun dep_chain :: "direct_dep_map \<Rightarrow> ir_variable list \<Rightarrow> bool" where
  "dep_chain dd (x # y # rest) = (depends_on dd y x \<and> dep_chain dd (y # rest))"
| "dep_chain dd _ = True"

definition input_path :: "direct_dep_map \<Rightarrow> ir_variable list \<Rightarrow> ir_variable \<Rightarrow> ir_variable list \<Rightarrow> bool" where
  "input_path dd input_set target p \<longleftrightarrow>
     p \<noteq> [] \<and> last p = target \<and> hd p \<in> set input_set \<and> set (tl p) \<inter> set input_set = {}
     \<and> distinct p \<and> dep_chain dd p"

lemma dep_chain_snoc:
  "sp \<noteq> [] \<Longrightarrow> dep_chain dd (sp @ [c]) \<longleftrightarrow> dep_chain dd sp \<and> depends_on dd c (last sp)"
  by (induction dd sp rule: dep_chain.induct) auto

lemma input_path_single: "input_path dd I c [c] \<longleftrightarrow> c \<in> set I"
  by (simp add: input_path_def)

lemma input_path_snoc:
  "sp \<noteq> [] \<Longrightarrow> input_path dd I c (sp @ [c])
     \<longleftrightarrow> input_path dd I (last sp) sp \<and> c \<notin> set I \<and> c \<notin> set sp \<and> depends_on dd c (last sp)"
  by (auto simp: input_path_def dep_chain_snoc)

lemma input_path_last: "input_path dd I c p \<Longrightarrow> p \<noteq> [] \<and> last p = c \<and> distinct p"
  by (simp add: input_path_def)

lemma branch_visited:
  assumes "sp \<noteq> []" "distinct sp" "c \<in> set visited"
  shows "(c \<notin> set sp \<and> set sp \<inter> set visited = {})
           \<longleftrightarrow> (last sp \<notin> set visited \<and> set (butlast sp) \<inter> set (last sp # visited) = {})"
proof (cases sp rule: rev_cases)
  case Nil
  with assms show ?thesis by simp
next
  case (snoc bs l)
  with assms show ?thesis by auto
qed

lemma dfs_input:
  "current \<in> set I \<Longrightarrow> dfs dd I current visited = [[current]]"
  by (subst dfs.simps) simp

lemma dfs_no_dependencies:
  "current \<notin> set I \<Longrightarrow> map_of dd current = None \<Longrightarrow> dfs dd I current visited = []"
  by (subst dfs.simps) simp

lemma dfs_expand:
  "current \<notin> set I \<Longrightarrow> map_of dd current = Some deps \<Longrightarrow>
   set (dfs dd I current visited)
     = (\<Union>pre\<in>{pre \<in> set deps. pre \<notin> set visited}.
          (\<lambda>sp. sp @ [current]) ` set (dfs dd I pre (pre # visited)))"
  by (subst dfs.simps) auto

lemma dfs_paths:
  assumes "current \<in> set visited"
  shows "set (dfs dd I current visited)
           = {p. input_path dd I current p \<and> set (butlast p) \<inter> set visited = {}}"
  using assms
proof (induction dd I current visited rule: dfs.induct)
  case (1 dd I current visited)
  let ?R = "{p. input_path dd I current p \<and> set (butlast p) \<inter> set visited = {}}"
  show ?case
  proof (cases "current \<in> set I")
    case True
    have "?R = {[current]}"
    proof (intro equalityI subsetI)
      fix p assume "p \<in> ?R"
      then have ip: "input_path dd I current p" by simp
      show "p \<in> {[current]}"
      proof (cases p rule: rev_cases)
        case Nil
        with ip show ?thesis by (simp add: input_path_def)
      next
        case (snoc sp l)
        with ip have l: "l = current" by (simp add: input_path_def)
        show ?thesis
        proof (cases "sp = []")
          case True
          with snoc l show ?thesis by simp
        next
          case False
          from ip input_path_snoc[OF False, of dd I current] True snoc l show ?thesis by simp
        qed
      qed
    next
      fix p assume "p \<in> {[current]}"
      with True show "p \<in> ?R" by (simp add: input_path_single)
    qed
    with True show ?thesis by (simp add: dfs_input)
  next
    case notin: False
    show ?thesis
    proof (cases "map_of dd current")
      case None
      have "?R = {}"
      proof (intro equalityI subsetI)
        fix p assume "p \<in> ?R"
        then have ip: "input_path dd I current p" by simp
        show "p \<in> {}"
        proof (cases p rule: rev_cases)
          case Nil
          with ip show ?thesis by (simp add: input_path_def)
        next
          case (snoc sp l)
          with ip have l: "l = current" by (simp add: input_path_def)
          show ?thesis
          proof (cases "sp = []")
            case True
            with snoc l ip notin show ?thesis by (simp add: input_path_single)
          next
            case False
            from ip input_path_snoc[OF False, of dd I current] snoc l
            have "depends_on dd current (last sp)" by simp
            with None show ?thesis by (simp add: depends_on_def)
          qed
        qed
      qed simp
      with notin None show ?thesis by (simp add: dfs_no_dependencies)
    next
      case (Some deps)
      have IH: "set (dfs dd I pre (pre # visited))
           = {p. input_path dd I pre p \<and> set (butlast p) \<inter> set (pre # visited) = {}}"
        if "pre \<in> set deps" "pre \<notin> set visited" for pre
        using "1.IH"[OF notin Some that] by simp
      have dep: "depends_on dd current x \<longleftrightarrow> x \<in> set deps" for x
        using Some by (simp add: depends_on_def)
      show ?thesis
      proof (intro equalityI subsetI)
        fix p assume "p \<in> set (dfs dd I current visited)"
        then obtain pre sp where pre: "pre \<in> set deps" "pre \<notin> set visited"
          and sp: "sp \<in> set (dfs dd I pre (pre # visited))" and p: "p = sp @ [current]"
          unfolding dfs_expand[OF notin Some] by blast
        from sp IH[OF pre] have s: "input_path dd I pre sp"
          and b: "set (butlast sp) \<inter> set (pre # visited) = {}" by simp_all
        from input_path_last[OF s] have sp_ne: "sp \<noteq> []" and last_sp: "last sp = pre"
          and dist: "distinct sp" by simp_all
        from branch_visited[OF sp_ne dist "1.prems"] pre b last_sp
        have c: "current \<notin> set sp" "set sp \<inter> set visited = {}" by simp_all
        have "input_path dd I current (sp @ [current])"
          using input_path_snoc[OF sp_ne, of dd I current] s last_sp notin c(1) dep pre(1) by simp
        then show "p \<in> ?R" using c(2) by (simp add: p)
      next
        fix p assume "p \<in> ?R"
        then have ip: "input_path dd I current p" and dis: "set (butlast p) \<inter> set visited = {}"
          by simp_all
        show "p \<in> set (dfs dd I current visited)"
        proof (cases p rule: rev_cases)
          case Nil
          with ip show ?thesis by (simp add: input_path_def)
        next
          case (snoc sp l)
          with ip have l: "l = current" by (simp add: input_path_def)
          have sp_ne: "sp \<noteq> []"
          proof
            assume "sp = []"
            with snoc l ip notin show False by (simp add: input_path_single)
          qed
          define pre where "pre = last sp"
          from ip input_path_snoc[OF sp_ne, of dd I current] snoc l
          have s: "input_path dd I pre sp" and c: "current \<notin> set sp"
            and d: "pre \<in> set deps" by (simp_all add: pre_def dep)
          from input_path_last[OF s] have dist: "distinct sp" by simp
          have "set sp \<inter> set visited = {}" using dis snoc by simp
          with branch_visited[OF sp_ne dist "1.prems"] c
          have nv: "pre \<notin> set visited" and b: "set (butlast sp) \<inter> set (pre # visited) = {}"
            by (simp_all add: pre_def)
          from IH[OF d nv] s b have "sp \<in> set (dfs dd I pre (pre # visited))" by simp
          with d nv show ?thesis
            unfolding dfs_expand[OF notin Some] snoc l by blast
        qed
      qed
    qed
  qed
qed


text \<open>
  C7. The paths returned for a target are exactly the paths from an input variable to
  the target, each ordered from the input to the target, each without a repeated
  variable. Inside the search, called with the variables of the current branch as
  \<open>visited\<close>, the result is exactly the paths to the current variable that avoid
  these variables, so a variable is excluded in a branch exactly when it is on that
  branch. A branch that reaches a variable of the input set returns that variable
  alone and goes no further; a branch that reaches a variable outside the input set
  without an entry in the map returns no path.
\<close>

theorem find_dependency_paths_characterisation:
  "set (find_dependency_paths target direct_dep input_set)
     = {p. input_path direct_dep input_set target p}
   \<and> (current \<in> set visited \<longrightarrow>
        set (dfs direct_dep input_set current visited)
          = {p. input_path direct_dep input_set current p \<and> set (butlast p) \<inter> set visited = {}})
   \<and> (current \<in> set input_set \<longrightarrow> dfs direct_dep input_set current visited = [[current]])
   \<and> (current \<notin> set input_set \<longrightarrow> map_of direct_dep current = None
        \<longrightarrow> dfs direct_dep input_set current visited = [])"
proof -
  have "set (butlast p) \<inter> set [target] = {}" if "input_path direct_dep input_set target p" for p
  proof (cases p rule: rev_cases)
    case Nil
    then show ?thesis by simp
  next
    case (snoc sp l)
    with that show ?thesis by (auto simp: input_path_def)
  qed
  then have "set (find_dependency_paths target direct_dep input_set)
     = {p. input_path direct_dep input_set target p}"
    unfolding find_dependency_paths_def
    using dfs_paths[of target "[target]" direct_dep input_set] by auto
  then show ?thesis
    using dfs_paths[of current visited direct_dep input_set]
    by (simp add: dfs_input dfs_no_dependencies)
qed

text \<open>
  Example: \<open>t\<close> depends on \<open>a\<close> and \<open>b\<close>, both depend on \<open>c\<close>, and \<open>c\<close> depends on
  \<open>t\<close> (a cycle) and on the input \<open>i\<close>. Both branches pass through \<open>c\<close>.
\<close>

definition dv_t :: ir_variable where "dv_t = Plain (BaseVariable 1 ''t'')"
definition dv_a :: ir_variable where "dv_a = Plain (BaseVariable 2 ''a'')"
definition dv_b :: ir_variable where "dv_b = Plain (BaseVariable 3 ''b'')"
definition dv_c :: ir_variable where "dv_c = Plain (BaseVariable 4 ''c'')"
definition dv_i :: ir_variable where "dv_i = Plain (BaseVariable 5 ''i'')"

definition ex_direct_dep :: direct_dep_map where
  "ex_direct_dep = [(dv_t, [dv_a, dv_b]), (dv_a, [dv_c]), (dv_b, [dv_c]), (dv_c, [dv_t, dv_i])]"


lemma diamond_paths:
  "find_dependency_paths dv_t ex_direct_dep [dv_i]
     = [[dv_i, dv_c, dv_a, dv_t], [dv_i, dv_c, dv_b, dv_t]]"
  by code_simp

theorem find_dependency_paths_characterisation_witness:
  "find_dependency_paths dv_t ex_direct_dep [dv_i]
     = [[dv_i, dv_c, dv_a, dv_t], [dv_i, dv_c, dv_b, dv_t]]
   \<and> input_path ex_direct_dep [dv_i] dv_t [dv_i, dv_c, dv_a, dv_t]
   \<and> input_path ex_direct_dep [dv_i] dv_t [dv_i, dv_c, dv_b, dv_t]
   \<and> dfs ex_direct_dep [dv_i] dv_i [dv_i, dv_c, dv_a, dv_t] = [[dv_i]]"
proof -
  have i: "dv_i \<in> set [dv_i]" by simp
  from find_dependency_paths_characterisation[of dv_t ex_direct_dep "[dv_i]" dv_i
      "[dv_i, dv_c, dv_a, dv_t]"]
  have s: "set (find_dependency_paths dv_t ex_direct_dep [dv_i])
             = {p. input_path ex_direct_dep [dv_i] dv_t p}"
    and d: "dfs ex_direct_dep [dv_i] dv_i [dv_i, dv_c, dv_a, dv_t] = [[dv_i]]"
    using i by simp_all
  have "[dv_i, dv_c, dv_a, dv_t] \<in> set (find_dependency_paths dv_t ex_direct_dep [dv_i])"
    "[dv_i, dv_c, dv_b, dv_t] \<in> set (find_dependency_paths dv_t ex_direct_dep [dv_i])"
    by (simp_all add: diamond_paths)
  with s have "input_path ex_direct_dep [dv_i] dv_t [dv_i, dv_c, dv_a, dv_t]"
    "input_path ex_direct_dep [dv_i] dv_t [dv_i, dv_c, dv_b, dv_t]" by simp_all
  with d diamond_paths show ?thesis by simp
qed

end
